theory Spec2Isabelle
  imports Main
begin

section \<open>The JavaScript values the state store handles\<close>

text \<open>
  The store (\<^verbatim>\<open>/api/state\<close>) moves JSON documents between an HTTP client and the GitHub
  contents API. Its own code is short; most of what it does is delegated to the runtime:
  \<^verbatim>\<open>JSON.parse\<close>, \<^verbatim>\<open>JSON.stringify\<close>, \<^verbatim>\<open>Buffer\<close>, \<^verbatim>\<open>String\<close>,
  \<^verbatim>\<open>encodeURIComponent\<close>, \<^verbatim>\<open>fetch\<close>. This section and the next two model that runtime;
  the functions of the source file follow from section 4 on, under their own names.

  Conventions of the model.
  \<^item> A JavaScript string is represented by its UTF-8 encoding, one \<^typ>\<open>char\<close> per byte, so
    \<^verbatim>\<open>Buffer.from(s, 'utf8')\<close> and \<^verbatim>\<open>buf.toString('utf8')\<close> are the identity on it. Strings
    with lone surrogates and byte sequences that are not UTF-8 lie outside the model.
  \<^item> A number is a decimal: an integer (\<open>JNum\<close>), or an integer over a power of ten
    that is not one (\<open>JDec\<close>). The runtime holds doubles. The two agree on the integers up
    to \<open>2^53 - 1\<close> and on the decimals of at most 15 significant digits between
    \<open>10^-300\<close> and \<open>10^15\<close>: each of these is the shortest decimal of its double, so it
    is what \<^verbatim>\<open>JSON.stringify\<close> prints for it and what \<^verbatim>\<open>JSON.parse\<close> reads back. A
    literal of more digits is rounded by the runtime and kept exact here; the predicate
    \<open>wf_json\<close> below leaves such values out, and no statement depends on their value.
  \<^item> An object is the list of its own properties in insertion order. The runtime's
    reordering of integer-like keys is not modelled.
\<close>

datatype json =
    JNull
  | JBool bool
  | JNum int
  | JDec int nat
  | JStr string
  | JArr "json list"
  | JObj "(string \<times> json) list"

text \<open>ToBoolean on a JSON value: \<^verbatim>\<open>null\<close>, \<^verbatim>\<open>false\<close>, \<^verbatim>\<open>0\<close> and \<^verbatim>\<open>''\<close> are falsy.\<close>

fun truthy :: "json \<Rightarrow> bool" where
  "truthy JNull = False"
| "truthy (JBool b) = b"
| "truthy (JNum n) = (n \<noteq> 0)"
| "truthy (JDec m d) = (m \<noteq> 0)"
| "truthy (JStr s) = (s \<noteq> [])"
| "truthy (JArr xs) = True"
| "truthy (JObj kvs) = True"

text \<open>
  \<^verbatim>\<open>v.k\<close> for a value \<open>v\<close> that is not \<^verbatim>\<open>null\<close> and a name \<open>k\<close> that no prototype
  defines (the source reads \<^verbatim>\<open>content\<close>, \<^verbatim>\<open>sha\<close>, \<^verbatim>\<open>commit\<close>, \<^verbatim>\<open>html_url\<close>,
  \<^verbatim>\<open>id\<close>, \<^verbatim>\<open>__meta\<close>, \<^verbatim>\<open>name\<close> and \<^verbatim>\<open>state\<close>): the own property of an object,
  \<^verbatim>\<open>undefined\<close> (\<open>None\<close>) otherwise. Reading a property of \<^verbatim>\<open>null\<close> throws; the callers
  below check for \<^const>\<open>JNull\<close> first wherever the source can reach that.
\<close>

fun get_prop :: "json \<Rightarrow> string \<Rightarrow> json option" where
  "get_prop (JObj kvs) k = map_of kvs k"
| "get_prop v k = None"

text \<open>\<^verbatim>\<open>o[k] = v\<close> on an ordinary object: an existing key keeps its place, a new one goes last.\<close>

fun obj_set :: "(string \<times> json) list \<Rightarrow> string \<Rightarrow> json \<Rightarrow> (string \<times> json) list" where
  "obj_set [] k v = [(k, v)]"
| "obj_set ((k', v') # kvs) k v =
     (if k' = k then (k, v) # kvs else (k', v') # obj_set kvs k v)"

text \<open>
  \<^verbatim>\<open>Object.assign(target, src)\<close> assigns the own properties of \<open>src\<close> in order. Assigning
  the key \<^verbatim>\<open>__proto__\<close> runs the prototype setter and creates no own property.
\<close>

fun Object_assign :: "(string \<times> json) list \<Rightarrow> (string \<times> json) list \<Rightarrow> (string \<times> json) list" where
  "Object_assign tgt [] = tgt"
| "Object_assign tgt ((k, v) # kvs) =
     Object_assign (if k = ''__proto__'' then tgt else obj_set tgt k v) kvs"

subsection \<open>Numbers and strings as text\<close>

definition digit_char :: "nat \<Rightarrow> char" where
  "digit_char d = char_of (48 + d)"

function show_nat :: "nat \<Rightarrow> string" where
  "show_nat n = (if n < 10 then [digit_char n] else show_nat (n div 10) @ [digit_char (n mod 10)])"
  by pat_completeness auto
termination
  by (relation "measure id") auto

declare show_nat.simps [simp del]

definition show_int :: "int \<Rightarrow> string" where
  "show_int i = (if i < 0 then CHR ''-'' # show_nat (nat (- i)) else show_nat (nat i))"

text \<open>
  Number::toString for a number with the decimal digits \<open>ds\<close>, the first and the last of
  them not \<^verbatim>\<open>0\<close>, and the decimal point after the \<open>n\<close>-th digit (before the first one
  for \<open>n \<le> 0\<close>): the digits and zeros up to the point for an integer below \<open>10^21\<close>, the
  point inside the digits, \<^verbatim>\<open>0.\<close> and up to five zeros before them, and the
  exponential form otherwise.
\<close>

definition number_text :: "string \<Rightarrow> int \<Rightarrow> string" where
  "number_text ds n =
     (let k = int (length ds) in
      if k \<le> n \<and> n \<le> 21 then ds @ replicate (nat (n - k)) (CHR ''0'')
      else if 0 < n \<and> n \<le> 21 then take (nat n) ds @ ''.'' @ drop (nat n) ds
      else if - 6 < n \<and> n \<le> 0 then ''0.'' @ replicate (nat (- n)) (CHR ''0'') @ ds
      else (if length ds = 1 then ds else hd ds # ''.'' @ tl ds)
           @ ''e'' @ (if n - 1 < 0 then ''-'' else ''+'') @ show_nat (nat \<bar>n - 1\<bar>))"

definition strip_zeros :: "string \<Rightarrow> string" where
  "strip_zeros ds = rev (dropWhile (\<lambda>c. c = CHR ''0'') (rev ds))"

text \<open>The text of the integer \<open>i\<close>, and of the decimal \<open>m / 10^d\<close>.\<close>

definition int_text :: "int \<Rightarrow> string" where
  "int_text i =
     (if i = 0 then ''0''
      else (if i < 0 then ''-'' else [])
           @ number_text (strip_zeros (show_nat (nat \<bar>i\<bar>))) (int (length (show_nat (nat \<bar>i\<bar>)))))"

definition dec_text :: "int \<Rightarrow> nat \<Rightarrow> string" where
  "dec_text m d =
     (if m < 0 then ''-'' else [])
     @ number_text (show_nat (nat \<bar>m\<bar>)) (int (length (show_nat (nat \<bar>m\<bar>))) - int d)"

text \<open>
  \<^verbatim>\<open>String(v)\<close>. An array joins the strings of its elements with commas, \<^verbatim>\<open>null\<close>
  elements giving the empty string. An object gives \<^verbatim>\<open>[object Object]\<close> through
  \<^verbatim>\<open>Object.prototype.toString\<close>, unless it has an own property \<^verbatim>\<open>toString\<close>: a JSON
  value is never callable, \<^verbatim>\<open>valueOf\<close> returns the object itself, and the conversion
  throws a TypeError (\<open>None\<close>).
\<close>

fun join_opt :: "string option list \<Rightarrow> string option" where
  "join_opt [] = Some []"
| "join_opt [x] = x"
| "join_opt (x # y # ys) =
     (case x of None \<Rightarrow> None
      | Some s \<Rightarrow> (case join_opt (y # ys) of None \<Rightarrow> None | Some t \<Rightarrow> Some (s @ '','' @ t)))"

fun js_String :: "json \<Rightarrow> string option" where
  "js_String JNull = Some ''null''"
| "js_String (JBool b) = Some (if b then ''true'' else ''false'')"
| "js_String (JNum n) = Some (int_text n)"
| "js_String (JDec m d) = Some (dec_text m d)"
| "js_String (JStr s) = Some s"
| "js_String (JArr xs) =
     join_opt (map (\<lambda>x. if x = JNull then Some [] else js_String x) xs)"
| "js_String (JObj kvs) =
     (if ''toString'' \<in> fst ` set kvs then None else Some ''[object Object]'')"


section \<open>\<^verbatim>\<open>JSON.stringify(v, null, 2)\<close> and \<^verbatim>\<open>JSON.parse\<close>\<close>

definition hex_digit :: "nat \<Rightarrow> char" where
  "hex_digit d = (if d < 10 then char_of (48 + d) else char_of (87 + d))"

text \<open>
  QuoteJSONString: the quotation mark, the backslash and the control characters are
  escaped, the five with a short form by it, the others as \<^verbatim>\<open>\u00XX\<close>.
\<close>

definition esc_char :: "char \<Rightarrow> string" where
  "esc_char c =
     (if c = CHR 0x22 then [CHR 0x5C, CHR 0x22]
      else if c = CHR 0x5C then [CHR 0x5C, CHR 0x5C]
      else if c = CHR 0x08 then [CHR 0x5C, CHR ''b'']
      else if c = CHR 0x0C then [CHR 0x5C, CHR ''f'']
      else if c = CHR 0x0A then [CHR 0x5C, CHR ''n'']
      else if c = CHR 0x0D then [CHR 0x5C, CHR ''r'']
      else if c = CHR 0x09 then [CHR 0x5C, CHR ''t'']
      else if of_char c < (32::nat)
        then [CHR 0x5C, CHR ''u'', CHR ''0'', CHR ''0'',
              hex_digit (of_char c div 16), hex_digit (of_char c mod 16)]
      else [c])"

definition quote :: "string \<Rightarrow> string" where
  "quote s = CHR 0x22 # concat (map esc_char s) @ [CHR 0x22]"

fun join_with :: "string \<Rightarrow> string list \<Rightarrow> string" where
  "join_with sep [] = []"
| "join_with sep [x] = x"
| "join_with sep (x # y # ys) = x @ sep @ join_with sep (y # ys)"

definition newline :: "nat \<Rightarrow> string" where
  "newline n = CHR 0x0A # replicate n (CHR '' '')"

text \<open>
  SerializeJSONProperty with the gap of two spaces; \<open>n\<close> is the current indentation.
  An empty array or object is printed without a line break.
\<close>

fun stringify_at :: "nat \<Rightarrow> json \<Rightarrow> string" where
  "stringify_at n JNull = ''null''"
| "stringify_at n (JBool b) = (if b then ''true'' else ''false'')"
| "stringify_at n (JNum i) = int_text i"
| "stringify_at n (JDec m d) = dec_text m d"
| "stringify_at n (JStr s) = quote s"
| "stringify_at n (JArr xs) =
     (if xs = [] then ''[]''
      else ''['' @ newline (n + 2)
           @ join_with ('','' @ newline (n + 2)) (map (stringify_at (n + 2)) xs)
           @ newline n @ '']'')"
| "stringify_at n (JObj kvs) =
     (if kvs = [] then ''{}''
      else ''{'' @ newline (n + 2)
           @ join_with ('','' @ newline (n + 2))
               (map (\<lambda>kv. quote (fst kv) @ '': '' @ stringify_at (n + 2) (snd kv)) kvs)
           @ newline n @ ''}'')"

definition JSON_stringify :: "json \<Rightarrow> string" where
  "JSON_stringify v = stringify_at 0 v"

subsection \<open>The parser\<close>

definition is_ws :: "char \<Rightarrow> bool" where
  "is_ws c = (c = CHR '' '' \<or> c = CHR 0x09 \<or> c = CHR 0x0A \<or> c = CHR 0x0D)"

definition skip_ws :: "string \<Rightarrow> string" where
  "skip_ws s = dropWhile is_ws s"

definition is_digit :: "char \<Rightarrow> bool" where
  "is_digit c = (48 \<le> (of_char c :: nat) \<and> (of_char c :: nat) \<le> 57)"

definition digit_val :: "char \<Rightarrow> nat" where
  "digit_val c = of_char c - 48"

fun parse_digits :: "nat \<Rightarrow> string \<Rightarrow> nat \<times> string" where
  "parse_digits acc [] = (acc, [])"
| "parse_digits acc (c # cs) =
     (if is_digit c then parse_digits (acc * 10 + digit_val c) cs else (acc, c # cs))"

text \<open>The integer part of a number: a single \<^verbatim>\<open>0\<close>, or digits that do not start with one.\<close>

definition parse_nat :: "string \<Rightarrow> (nat \<times> string) option" where
  "parse_nat s =
     (case s of [] \<Rightarrow> None
      | c # cs \<Rightarrow>
          if c = CHR ''0'' then Some (0, cs)
          else if is_digit c then Some (parse_digits 0 s)
          else None)"

text \<open>
  The fraction after the integer part \<open>n\<close>, if there is one: a point and at least one
  digit. The result is the number without the point, the count of the digits after it,
  and the rest.
\<close>

definition parse_fraction :: "nat \<Rightarrow> string \<Rightarrow> (nat \<times> nat \<times> string) option" where
  "parse_fraction n s =
     (case s of
        [] \<Rightarrow> Some (n, 0, s)
      | c # cs \<Rightarrow>
          if c \<noteq> CHR ''.'' then Some (n, 0, s)
          else if takeWhile is_digit cs = [] then None
          else Some (fst (parse_digits n cs), length (takeWhile is_digit cs), snd (parse_digits n cs)))"

text \<open>The exponent, if there is one: \<^verbatim>\<open>e\<close> or \<^verbatim>\<open>E\<close>, a sign or none, and at least one digit.\<close>

definition parse_exponent :: "string \<Rightarrow> (int \<times> string) option" where
  "parse_exponent s =
     (case s of
        [] \<Rightarrow> Some (0, s)
      | c # cs \<Rightarrow>
          if c \<noteq> CHR ''e'' \<and> c \<noteq> CHR ''E'' then Some (0, s)
          else
            (let neg = (case cs of [] \<Rightarrow> False | d # ds \<Rightarrow> d = CHR ''-'');
                 signed = (case cs of [] \<Rightarrow> False | d # ds \<Rightarrow> d = CHR ''-'' \<or> d = CHR ''+'');
                 ds = (if signed then tl cs else cs)
             in
             if takeWhile is_digit ds = [] then None
             else Some ((if neg then - 1 else 1) * int (fst (parse_digits 0 ds)),
                        snd (parse_digits 0 ds))))"

text \<open>
  The value \<open>m / 10^d\<close> in its lowest terms, and the value \<open>m * 10^sc\<close> of a literal.
  \<^verbatim>\<open>-0\<close> is \<^verbatim>\<open>0\<close>: \<^verbatim>\<open>JSON.stringify\<close> prints both as \<^verbatim>\<open>0\<close>.
\<close>

fun lowest_terms :: "int \<Rightarrow> nat \<Rightarrow> json" where
  "lowest_terms m 0 = JNum m"
| "lowest_terms m (Suc d) = (if m mod 10 = 0 then lowest_terms (m div 10) d else JDec m (Suc d))"

definition make_number :: "int \<Rightarrow> int \<Rightarrow> json" where
  "make_number m sc = (if 0 \<le> sc then JNum (m * 10 ^ nat sc) else lowest_terms m (nat (- sc)))"

text \<open>A number literal: a sign or none, the integer part, a fraction or none, an exponent or none.\<close>

definition parse_number :: "string \<Rightarrow> (json \<times> string) option" where
  "parse_number s =
     (case s of [] \<Rightarrow> None
      | c # cs \<Rightarrow>
          (case (if c = CHR ''-'' then parse_nat cs else parse_nat s) of
             None \<Rightarrow> None
           | Some (n, r) \<Rightarrow>
               (case parse_fraction n r of
                  None \<Rightarrow> None
                | Some (m, fd, r1) \<Rightarrow>
                    (case parse_exponent r1 of
                       None \<Rightarrow> None
                     | Some (ex, r2) \<Rightarrow>
                         Some (make_number (if c = CHR ''-'' then - int m else int m)
                                 (ex - int fd), r2)))))"

definition hex_val :: "char \<Rightarrow> nat option" where
  "hex_val c =
     (let n = (of_char c :: nat) in
      if 48 \<le> n \<and> n \<le> 57 then Some (n - 48)
      else if 97 \<le> n \<and> n \<le> 102 then Some (n - 87)
      else if 65 \<le> n \<and> n \<le> 70 then Some (n - 55)
      else None)"

definition hex4 :: "string \<Rightarrow> nat option" where
  "hex4 s =
     (case s of
        [a, b, c, d] \<Rightarrow>
          (case (hex_val a, hex_val b, hex_val c, hex_val d) of
             (Some w, Some x, Some y, Some z) \<Rightarrow> Some (((w * 16 + x) * 16 + y) * 16 + z)
           | _ \<Rightarrow> None)
      | _ \<Rightarrow> None)"

text \<open>The UTF-8 bytes of a code point.\<close>

definition utf8 :: "nat \<Rightarrow> string" where
  "utf8 n =
     (if n < 0x80 then [char_of n]
      else if n < 0x800 then [char_of (0xC0 + n div 64), char_of (0x80 + n mod 64)]
      else if n < 0x10000 then
        [char_of (0xE0 + n div 4096), char_of (0x80 + n div 64 mod 64), char_of (0x80 + n mod 64)]
      else
        [char_of (0xF0 + n div 262144), char_of (0x80 + n div 4096 mod 64),
         char_of (0x80 + n div 64 mod 64), char_of (0x80 + n mod 64)])"

text \<open>
  The escape after a backslash: the bytes it stands for and the number of characters
  it takes. A \<^verbatim>\<open>\uXXXX\<close> high surrogate followed by a \<^verbatim>\<open>\uXXXX\<close> low surrogate is
  one code point. A surrogate on its own has no UTF-8 form; it is given as U+FFFD, the
  bytes any later encoding of it produces.
\<close>

definition unescape :: "string \<Rightarrow> (string \<times> nat) option" where
  "unescape s =
     (case s of [] \<Rightarrow> None
      | e # r \<Rightarrow>
          if e = CHR 0x22 then Some ([CHR 0x22], 1)
          else if e = CHR 0x5C then Some ([CHR 0x5C], 1)
          else if e = CHR ''/'' then Some (''/'', 1)
          else if e = CHR ''b'' then Some ([CHR 0x08], 1)
          else if e = CHR ''f'' then Some ([CHR 0x0C], 1)
          else if e = CHR ''n'' then Some ([CHR 0x0A], 1)
          else if e = CHR ''r'' then Some ([CHR 0x0D], 1)
          else if e = CHR ''t'' then Some ([CHR 0x09], 1)
          else if e = CHR ''u'' then
            (case hex4 (take 4 r) of
               None \<Rightarrow> None
             | Some n \<Rightarrow>
                 if 0xD800 \<le> n \<and> n < 0xDC00 then
                   (case (if take 2 (drop 4 r) = [CHR 0x5C, CHR ''u'']
                          then hex4 (take 4 (drop 6 r)) else None) of
                      None \<Rightarrow> Some (utf8 0xFFFD, 5)
                    | Some m \<Rightarrow>
                        if 0xDC00 \<le> m \<and> m < 0xE000
                        then Some (utf8 (0x10000 + (n - 0xD800) * 0x400 + (m - 0xDC00)), 11)
                        else Some (utf8 0xFFFD, 5))
                 else if 0xDC00 \<le> n \<and> n < 0xE000 then Some (utf8 0xFFFD, 5)
                 else Some (utf8 n, 5))
          else None)"

text \<open>The characters of a string literal after its opening quotation mark, and the rest.\<close>

function parse_chars :: "string \<Rightarrow> (string \<times> string) option" where
  "parse_chars [] = None"
| "parse_chars (c # cs) =
     (if c = CHR 0x22 then Some ([], cs)
      else if c = CHR 0x5C then
        (case unescape cs of
           None \<Rightarrow> None
         | Some (bytes, k) \<Rightarrow>
             (case parse_chars (drop k cs) of
                None \<Rightarrow> None
              | Some (s, r) \<Rightarrow> Some (bytes @ s, r)))
      else if of_char c < (32::nat) then None
      else (case parse_chars cs of None \<Rightarrow> None | Some (s, r) \<Rightarrow> Some (c # s, r)))"
  by pat_completeness auto
termination
  by (relation "measure length") auto

datatype 'a parse = OutOfFuel | Invalid | Parsed 'a

text \<open>
  Recursive descent. The first argument bounds the depth of the recursion; the
  parser never needs more than \<open>2 * length s + 1\<close> (lemma \<open>parse_value_fuel\<close>), which is
  what \<open>JSON_parse\<close> gives it. A repeated key of an object keeps its first place and
  its last value.
\<close>

fun parse_value :: "nat \<Rightarrow> string \<Rightarrow> (json \<times> string) parse"
  and parse_elems :: "nat \<Rightarrow> string \<Rightarrow> json list \<Rightarrow> (json \<times> string) parse"
  and parse_members :: "nat \<Rightarrow> string \<Rightarrow> (string \<times> json) list \<Rightarrow> (json \<times> string) parse"
where
  "parse_value 0 s = OutOfFuel"
| "parse_value (Suc f) s =
     (case skip_ws s of [] \<Rightarrow> Invalid
      | c # cs \<Rightarrow>
          if c = CHR ''n'' then (if take 3 cs = ''ull'' then Parsed (JNull, drop 3 cs) else Invalid)
          else if c = CHR ''t'' then
            (if take 3 cs = ''rue'' then Parsed (JBool True, drop 3 cs) else Invalid)
          else if c = CHR ''f'' then
            (if take 4 cs = ''alse'' then Parsed (JBool False, drop 4 cs) else Invalid)
          else if c = CHR 0x22 then
            (case parse_chars cs of None \<Rightarrow> Invalid | Some (str, r) \<Rightarrow> Parsed (JStr str, r))
          else if c = CHR ''['' then
            (case skip_ws cs of [] \<Rightarrow> Invalid
             | d # r \<Rightarrow> if d = CHR '']'' then Parsed (JArr [], r) else parse_elems f (d # r) [])
          else if c = CHR ''{'' then
            (case skip_ws cs of [] \<Rightarrow> Invalid
             | d # r \<Rightarrow> if d = CHR ''}'' then Parsed (JObj [], r) else parse_members f (d # r) [])
          else (case parse_number (c # cs) of None \<Rightarrow> Invalid | Some (v, r) \<Rightarrow> Parsed (v, r)))"
| "parse_elems 0 s acc = OutOfFuel"
| "parse_elems (Suc f) s acc =
     (case parse_value f s of
        OutOfFuel \<Rightarrow> OutOfFuel
      | Invalid \<Rightarrow> Invalid
      | Parsed (v, r) \<Rightarrow>
          (case skip_ws r of [] \<Rightarrow> Invalid
           | c # cs \<Rightarrow>
               if c = CHR '','' then parse_elems f cs (acc @ [v])
               else if c = CHR '']'' then Parsed (JArr (acc @ [v]), cs)
               else Invalid))"
| "parse_members 0 s acc = OutOfFuel"
| "parse_members (Suc f) s acc =
     (case skip_ws s of [] \<Rightarrow> Invalid
      | q # cs \<Rightarrow>
          if q \<noteq> CHR 0x22 then Invalid
          else
            (case parse_chars cs of None \<Rightarrow> Invalid
             | Some (k, r) \<Rightarrow>
                 (case skip_ws r of [] \<Rightarrow> Invalid
                  | c # r' \<Rightarrow>
                      if c \<noteq> CHR '':'' then Invalid
                      else
                        (case parse_value f r' of
                           OutOfFuel \<Rightarrow> OutOfFuel
                         | Invalid \<Rightarrow> Invalid
                         | Parsed (v, r'') \<Rightarrow>
                             (case skip_ws r'' of [] \<Rightarrow> Invalid
                              | d # t \<Rightarrow>
                                  if d = CHR '','' then parse_members f t (obj_set acc k v)
                                  else if d = CHR ''}'' then Parsed (JObj (obj_set acc k v), t)
                                  else Invalid)))))"

text \<open>\<^verbatim>\<open>JSON.parse(s)\<close>; \<open>None\<close> is the SyntaxError.\<close>

definition JSON_parse :: "string \<Rightarrow> json option" where
  "JSON_parse s =
     (case parse_value (2 * length s + 1) s of
        Parsed (v, r) \<Rightarrow> if skip_ws r = [] then Some v else None
      | _ \<Rightarrow> None)"


section \<open>\<^verbatim>\<open>Buffer\<close>, \<^verbatim>\<open>encodeURIComponent\<close>, \<^verbatim>\<open>split\<close>, \<^verbatim>\<open>trim\<close> and the regular expression\<close>

definition b64_char :: "nat \<Rightarrow> char" where
  "b64_char i =
     (if i < 26 then char_of (65 + i)
      else if i < 52 then char_of (71 + i)
      else if i < 62 then char_of (i - 4)
      else if i = 62 then CHR ''+''
      else CHR ''/'')"

text \<open>\<^verbatim>\<open>buf.toString('base64')\<close>: three bytes give four characters, the last group is padded.\<close>

fun b64_encode :: "string \<Rightarrow> string" where
  "b64_encode [] = []"
| "b64_encode [a] =
     (let x = (of_char a :: nat) in
      [b64_char (x div 4), b64_char (x mod 4 * 16), CHR ''='', CHR ''=''])"
| "b64_encode [a, b] =
     (let x = (of_char a :: nat); y = (of_char b :: nat) in
      [b64_char (x div 4), b64_char (x mod 4 * 16 + y div 16), b64_char (y mod 16 * 4), CHR ''=''])"
| "b64_encode (a # b # c # r) =
     (let x = (of_char a :: nat); y = (of_char b :: nat); z = (of_char c :: nat) in
      [b64_char (x div 4), b64_char (x mod 4 * 16 + y div 16),
       b64_char (y mod 16 * 4 + z div 64), b64_char (z mod 64)] @ b64_encode r)"

text \<open>The value of a base64 character; the URL-safe \<^verbatim>\<open>-\<close> and \<^verbatim>\<open>_\<close> are accepted too.\<close>

definition b64_val :: "char \<Rightarrow> nat option" where
  "b64_val c =
     (let n = (of_char c :: nat) in
      if 65 \<le> n \<and> n \<le> 90 then Some (n - 65)
      else if 97 \<le> n \<and> n \<le> 122 then Some (n - 71)
      else if 48 \<le> n \<and> n \<le> 57 then Some (n + 4)
      else if c = CHR ''+'' \<or> c = CHR ''-'' then Some 62
      else if c = CHR ''/'' \<or> c = CHR ''_'' then Some 63
      else None)"

fun b64_groups :: "nat list \<Rightarrow> string" where
  "b64_groups (w # x # y # z # r) =
     [char_of (w * 4 + x div 16), char_of (x mod 16 * 16 + y div 4), char_of (y mod 4 * 64 + z)]
     @ b64_groups r"
| "b64_groups [w, x, y] = [char_of (w * 4 + x div 16), char_of (x mod 16 * 16 + y div 4)]"
| "b64_groups [w, x] = [char_of (w * 4 + x div 16)]"
| "b64_groups r = []"

text \<open>
  \<^verbatim>\<open>Buffer.from(s, 'base64')\<close> never fails: decoding stops at the first \<^verbatim>\<open>=\<close>, and a
  character outside the alphabet is skipped.
\<close>

definition b64_decode :: "string \<Rightarrow> string" where
  "b64_decode s = b64_groups (List.map_filter b64_val (takeWhile (\<lambda>c. c \<noteq> CHR ''='') s))"

definition upper_hex :: "nat \<Rightarrow> char" where
  "upper_hex d = (if d < 10 then char_of (48 + d) else char_of (55 + d))"

definition uri_unreserved :: "char \<Rightarrow> bool" where
  "uri_unreserved c =
     (let n = (of_char c :: nat) in
      (65 \<le> n \<and> n \<le> 90) \<or> (97 \<le> n \<and> n \<le> 122) \<or> (48 \<le> n \<and> n \<le> 57)
      \<or> c \<in> set ''-_.!~*'()'')"

definition uri_byte :: "char \<Rightarrow> string" where
  "uri_byte c =
     (if uri_unreserved c then [c]
      else [CHR ''%'', upper_hex (of_char c div 16), upper_hex (of_char c mod 16)])"

definition encodeURIComponent :: "string \<Rightarrow> string" where
  "encodeURIComponent s = concat (map uri_byte s)"

text \<open>\<^verbatim>\<open>s.split(d)\<close> for a separator of one character.\<close>

fun split_char :: "char \<Rightarrow> string \<Rightarrow> string list" where
  "split_char d [] = [[]]"
| "split_char d (c # cs) =
     (if c = d then [] # split_char d cs
      else (case split_char d cs of [] \<Rightarrow> [[c]] | x # xs \<Rightarrow> (c # x) # xs))"

text \<open>
  WhiteSpace and LineTerminator, which \<^verbatim>\<open>trim\<close> removes, in UTF-8: the six ASCII ones,
  U+00A0, U+1680, U+2000 to U+200A, U+2028, U+2029, U+202F, U+205F, U+3000 and U+FEFF.
\<close>

definition ws_tokens :: "string list" where
  "ws_tokens =
     [[CHR 0x20], [CHR 0x09], [CHR 0x0A], [CHR 0x0B], [CHR 0x0C], [CHR 0x0D],
      [CHR 0xC2, CHR 0xA0], [CHR 0xE1, CHR 0x9A, CHR 0x80]]
     @ map (\<lambda>k. [CHR 0xE2, CHR 0x80, char_of (0x80 + k)]) [0 ..< 11 :: nat]
     @ [[CHR 0xE2, CHR 0x80, CHR 0xA8], [CHR 0xE2, CHR 0x80, CHR 0xA9],
        [CHR 0xE2, CHR 0x80, CHR 0xAF], [CHR 0xE2, CHR 0x81, CHR 0x9F],
        [CHR 0xE3, CHR 0x80, CHR 0x80], [CHR 0xEF, CHR 0xBB, CHR 0xBF]]"

function strip_tokens :: "string list \<Rightarrow> string \<Rightarrow> string" where
  "strip_tokens toks s =
     (case find (\<lambda>t. t \<noteq> [] \<and> take (length t) s = t) toks of
        None \<Rightarrow> s
      | Some t \<Rightarrow> strip_tokens toks (drop (length t) s))"
  by pat_completeness auto
termination
proof (relation "measure (\<lambda>(toks, s). length s)")
  show "wf (measure (\<lambda>(toks, s). length s))" by simp
next
  fix toks :: "string list" and s t :: string
  assume "find (\<lambda>t. t \<noteq> [] \<and> take (length t) s = t) toks = Some t"
  then have t: "t \<noteq> []" "take (length t) s = t"
    by (auto simp: find_Some_iff)
  then have "s \<noteq> []" by auto
  with t show "((toks, drop (length t) s), (toks, s)) \<in> measure (\<lambda>(toks, s). length s)"
    by (cases t) auto
qed

declare strip_tokens.simps [simp del]

definition js_trim :: "string \<Rightarrow> string" where
  "js_trim s = rev (strip_tokens (map rev ws_tokens) (rev (strip_tokens ws_tokens s)))"

text \<open>\<^verbatim>\<open>/^[a-zA-Z0-9_-]{3,80}$/.test(s)\<close>.\<close>

definition id_char :: "char \<Rightarrow> bool" where
  "id_char c =
     (let n = (of_char c :: nat) in
      (97 \<le> n \<and> n \<le> 122) \<or> (65 \<le> n \<and> n \<le> 90) \<or> (48 \<le> n \<and> n \<le> 57)
      \<or> c = CHR ''_'' \<or> c = CHR ''-'')"

definition dash_re :: "string \<Rightarrow> bool" where
  "dash_re s = (3 \<le> length s \<and> length s \<le> 80 \<and> list_all id_char s)"


section \<open>The world outside: \<^verbatim>\<open>fetch\<close>, the contents API and the clock\<close>

record fetch_request =
  rq_method :: string
  rq_url :: string
  rq_headers :: "(string \<times> string) list"
  rq_body :: "json option"

record fetch_response =
  rs_status :: nat
  rs_statusText :: string
  rs_raw :: string

text \<open>\<^verbatim>\<open>r.ok\<close>: the status is in the range 200 to 299.\<close>

definition rs_ok :: "fetch_response \<Rightarrow> bool" where
  "rs_ok r = (200 \<le> rs_status r \<and> rs_status r \<le> 299)"

text \<open>
  What the network may do to one call instead of letting the repository answer it: the
  promise of \<^verbatim>\<open>fetch\<close> is rejected, or some other response arrives.
\<close>

datatype fault = Reject string | Respond fetch_response

text \<open>
  The state of everything outside the function: the files of the repository (the URL of a
  file in the contents API to its bytes), the number of commits made, the faults waiting
  for the calls to come (one entry per call, \<open>None\<close> for a call that goes through), the
  calls made so far, the clock (\<open>clock w k\<close> is the \<open>k\<close>-th reading), and the texts the
  engine gives an exception, its message and its stack trace.
  Since the list of faults is arbitrary, a statement about every world is a statement
  about every sequence of answers the calls can get.
\<close>

datatype exn = SyntaxError | TypeError | FetchError string

record world =
  files :: "string \<Rightarrow> string option"
  commits :: nat
  faults :: "fault option list"
  calls :: "fetch_request list"
  clock :: "nat \<Rightarrow> string"
  ticks :: nat
  message_text :: "exn \<Rightarrow> string"
  stack_text :: "exn \<Rightarrow> string"

datatype 'a res = Throw exn | Return 'a

type_synonym 'a io = "world \<Rightarrow> 'a res \<times> world"

definition io_return :: "'a \<Rightarrow> 'a io" where
  "io_return x w = (Return x, w)"

definition io_throw :: "exn \<Rightarrow> 'a io" where
  "io_throw e w = (Throw e, w)"

definition io_bind :: "'a io \<Rightarrow> ('a \<Rightarrow> 'b io) \<Rightarrow> 'b io" where
  "io_bind m f w = (case m w of (Throw e, w') \<Rightarrow> (Throw e, w') | (Return x, w') \<Rightarrow> f x w')"

text \<open>\<^verbatim>\<open>new Date().toISOString()\<close>.\<close>

definition Date_now :: "string io" where
  "Date_now w = (Return (clock w (ticks w)), w\<lparr>ticks := Suc (ticks w)\<rparr>)"

subsection \<open>The contents API of the repository\<close>

text \<open>
  The hash of a file is a function of its bytes and never empty; the model takes an
  injective one. Base64 in a response is broken into lines of 60 characters.
\<close>

definition blob_sha :: "string \<Rightarrow> string" where
  "blob_sha bytes = ''sha-'' @ bytes"

fun wrap_lines :: "nat \<Rightarrow> string \<Rightarrow> string" where
  "wrap_lines k [] = (if k = 0 then [] else [CHR 0x0A])"
| "wrap_lines k (c # cs) =
     (if k = 60 then CHR 0x0A # c # wrap_lines 1 cs else c # wrap_lines (Suc k) cs)"

definition commit_url :: "nat \<Rightarrow> string" where
  "commit_url n = ''https://github.com/commit/'' @ show_nat n"

definition file_key :: "fetch_request \<Rightarrow> string" where
  "file_key rq = takeWhile (\<lambda>c. c \<noteq> CHR ''?'') (rq_url rq)"

definition answer :: "nat \<Rightarrow> string \<Rightarrow> json \<Rightarrow> fetch_response" where
  "answer st txt v = \<lparr>rs_status = st, rs_statusText = txt, rs_raw = JSON_stringify v\<rparr>"

definition commit_json :: "nat \<Rightarrow> json" where
  "commit_json n = JObj [(''html_url'', JStr (commit_url n))]"

text \<open>
  GET answers 404 for a missing file and the hash and content of an existing one. PUT
  creates a file when no hash is sent and none exists, replaces it when the hash sent is
  the current one, and refuses otherwise. DELETE removes a file whose current hash is
  sent. A write makes a commit.
\<close>

definition github :: "fetch_request \<Rightarrow> fetch_response io" where
  "github rq w =
     (let key = file_key rq;
          body = (case rq_body rq of None \<Rightarrow> JNull | Some b \<Rightarrow> b);
          not_found = answer 404 ''Not Found'' (JObj [(''message'', JStr ''Not Found'')]);
          conflict = answer 409 ''Conflict'' (JObj [(''message'', JStr ''sha does not match'')]);
          invalid = answer 422 ''Unprocessable Entity'' (JObj [(''message'', JStr ''Invalid request'')])
      in
      if rq_method rq = ''GET'' then
        (case files w key of
           None \<Rightarrow> (Return not_found, w)
         | Some bytes \<Rightarrow>
             (Return (answer 200 ''OK''
                (JObj [(''sha'', JStr (blob_sha bytes)),
                       (''content'', JStr (wrap_lines 0 (b64_encode bytes))),
                       (''encoding'', JStr ''base64'')])), w))
      else if rq_method rq = ''PUT'' then
        (case get_prop body ''content'' of
           Some (JStr b64) \<Rightarrow>
             (let bytes = b64_decode b64;
                  done = (\<lambda>st txt.
                    (Return (answer st txt
                       (JObj [(''content'', JObj [(''sha'', JStr (blob_sha bytes))]),
                              (''commit'', commit_json (commits w))])),
                     w\<lparr>files := (files w)(key \<mapsto> bytes), commits := Suc (commits w)\<rparr>))
              in
              case (files w key, get_prop body ''sha'') of
                (None, None) \<Rightarrow> done 201 ''Created''
              | (None, Some h) \<Rightarrow> (Return invalid, w)
              | (Some old, None) \<Rightarrow> (Return invalid, w)
              | (Some old, Some h) \<Rightarrow>
                  if h = JStr (blob_sha old) then done 200 ''OK'' else (Return conflict, w))
         | _ \<Rightarrow> (Return invalid, w))
      else if rq_method rq = ''DELETE'' then
        (case files w key of
           None \<Rightarrow> (Return not_found, w)
         | Some old \<Rightarrow>
             if get_prop body ''sha'' = Some (JStr (blob_sha old)) then
               (Return (answer 200 ''OK''
                  (JObj [(''content'', JNull), (''commit'', commit_json (commits w))])),
                w\<lparr>files := (files w)(key := None), commits := Suc (commits w)\<rparr>)
             else if get_prop body ''sha'' = None then (Return invalid, w)
             else (Return conflict, w))
      else (Return (answer 405 ''Method Not Allowed'' (JObj [])), w))"

text \<open>\<^verbatim>\<open>await fetch(url, {method, headers, body})\<close>: the call is recorded, then answered.\<close>

definition fetch :: "fetch_request \<Rightarrow> fetch_response io" where
  "fetch rq w =
     (let w1 = w\<lparr>calls := calls w @ [rq]\<rparr> in
      case faults w1 of
        [] \<Rightarrow> github rq w1
      | None # fs \<Rightarrow> github rq (w1\<lparr>faults := fs\<rparr>)
      | Some (Reject msg) # fs \<Rightarrow> (Throw (FetchError msg), w1\<lparr>faults := fs\<rparr>)
      | Some (Respond r) # fs \<Rightarrow> (Return r, w1\<lparr>faults := fs\<rparr>))"


section \<open>The functions of the state store\<close>

definition API_BASE :: string where
  "API_BASE = ''https://api.github.com''"

definition MANIFEST_PATH :: string where
  "MANIFEST_PATH = ''data/manifest.json''"

definition DASH_DIR :: string where
  "DASH_DIR = ''data/dashboards''"

definition ghHeaders :: "string \<Rightarrow> (string \<times> string) list" where
  "ghHeaders token =
     [(''Authorization'', ''Bearer '' @ token),
      (''Accept'', ''application/vnd.github+json''),
      (''X-GitHub-Api-Version'', ''2022-11-28'')]"

definition toBase64 :: "string \<Rightarrow> string" where
  "toBase64 str = b64_encode str"

definition fromBase64 :: "string \<Rightarrow> string" where
  "fromBase64 b64 = b64_decode b64"

definition encodeGitHubPath :: "string \<Rightarrow> string" where
  "encodeGitHubPath p = join_with ''/'' (map encodeURIComponent (split_char (CHR ''/'') p))"

text \<open>The object \<^verbatim>\<open>{stage, status, statusText, url, raw}\<close> that wraps a failed call.\<close>

record gh_error =
  stage :: string
  status :: nat
  statusText :: string
  url :: string
  raw :: string

definition wrap_error :: "string \<Rightarrow> fetch_response \<Rightarrow> string \<Rightarrow> gh_error" where
  "wrap_error stg r u =
     \<lparr>stage = stg, status = rs_status r, statusText = rs_statusText r, url = u, raw = rs_raw r\<rparr>"

definition contents_url :: "string \<Rightarrow> string \<Rightarrow> string \<Rightarrow> string" where
  "contents_url owner repo path =
     API_BASE @ ''/repos/'' @ encodeURIComponent owner @ ''/'' @ encodeURIComponent repo
     @ ''/contents/'' @ encodeGitHubPath path"

text \<open>
  The results of \<^verbatim>\<open>ghGetFile\<close>: \<^verbatim>\<open>{error}\<close>, \<^verbatim>\<open>{exists: false, url}\<close> or
  \<^verbatim>\<open>{exists: true, sha, contentB64, url}\<close>. The hash is whatever \<^verbatim>\<open>data.sha\<close> is, \<open>None\<close>
  for \<^verbatim>\<open>undefined\<close>.
\<close>

datatype get_result =
    GetError gh_error
  | GetMissing string
  | GetExists "json option" string string

text \<open>Lines 35 to 37: the URL with the branch as \<^verbatim>\<open>ref\<close>, and the call.\<close>

definition get_request :: "string \<Rightarrow> string \<Rightarrow> string \<Rightarrow> string \<Rightarrow> string \<Rightarrow> fetch_request" where
  "get_request token owner repo path branch =
     \<lparr>rq_method = ''GET'',
      rq_url = contents_url owner repo path @ ''?ref='' @ encodeURIComponent branch,
      rq_headers = ghHeaders token, rq_body = None\<rparr>"

definition ghGetFile :: "string \<Rightarrow> string \<Rightarrow> string \<Rightarrow> string \<Rightarrow> string \<Rightarrow> get_result io" where
  "ghGetFile token owner repo path branch =
     (let rq = get_request token owner repo path branch; u = rq_url rq in
      io_bind (fetch rq)
        (\<lambda>r.
           if rs_status r = 404 then io_return (GetMissing u)
           else if \<not> rs_ok r then io_return (GetError (wrap_error ''github_get'' r u))
           else
             (case JSON_parse (rs_raw r) of
                None \<Rightarrow> io_throw SyntaxError
              | Some data \<Rightarrow>
                  if data = JNull then io_throw TypeError
                  else
                    (case (case get_prop data ''content'' of
                             None \<Rightarrow> Some []
                           | Some c \<Rightarrow> if truthy c then js_String c else Some []) of
                       None \<Rightarrow> io_throw TypeError
                     | Some str \<Rightarrow>
                         io_return
                           (GetExists (get_prop data ''sha'')
                              (join_with [] (split_char (CHR 0x0A) str)) u)))))"

text \<open>\<^verbatim>\<open>v?.k || null\<close> for a value \<open>v\<close> that may be \<^verbatim>\<open>undefined\<close>.\<close>

definition chain_or_null :: "json option \<Rightarrow> string \<Rightarrow> json" where
  "chain_or_null v k =
     (case v of
        None \<Rightarrow> JNull
      | Some o' \<Rightarrow>
          (case get_prop o' k of None \<Rightarrow> JNull | Some x \<Rightarrow> if truthy x then x else JNull))"

text \<open>The results of \<^verbatim>\<open>ghPutFile\<close>: \<^verbatim>\<open>{error}\<close> or \<^verbatim>\<open>{ok: true, sha, commitUrl, url}\<close>.\<close>

datatype put_result =
    PutError gh_error
  | PutOk json json string

text \<open>
  Lines 47 to 55: the request. The hash argument is \<open>None\<close> for \<^verbatim>\<open>undefined\<close>;
  \<^verbatim>\<open>body.sha\<close> is set for a truthy hash only.
\<close>

definition put_request ::
  "string \<Rightarrow> string \<Rightarrow> string \<Rightarrow> string \<Rightarrow> string \<Rightarrow> string \<Rightarrow> string \<Rightarrow> json option
   \<Rightarrow> fetch_request" where
  "put_request token owner repo path branch message contentStr sha =
     (let body = [(''message'', JStr message), (''content'', JStr (toBase64 contentStr)),
                  (''branch'', JStr branch)];
          body = (case sha of
                    None \<Rightarrow> body
                  | Some h \<Rightarrow> if truthy h then obj_set body ''sha'' h else body)
      in
      \<lparr>rq_method = ''PUT'', rq_url = contents_url owner repo path,
       rq_headers = (''Content-Type'', ''application/json'') # ghHeaders token,
       rq_body = Some (JObj body)\<rparr>)"

definition ghPutFile ::
  "string \<Rightarrow> string \<Rightarrow> string \<Rightarrow> string \<Rightarrow> string \<Rightarrow> string \<Rightarrow> string \<Rightarrow> json option
   \<Rightarrow> put_result io" where
  "ghPutFile token owner repo path branch message contentStr sha =
     (let rq = put_request token owner repo path branch message contentStr sha; u = rq_url rq in
      io_bind (fetch rq)
        (\<lambda>r.
           if \<not> rs_ok r then io_return (PutError (wrap_error ''github_put'' r u))
           else
             (case JSON_parse (rs_raw r) of
                None \<Rightarrow> io_throw SyntaxError
              | Some data \<Rightarrow>
                  if data = JNull then io_throw TypeError
                  else
                    io_return
                      (PutOk (chain_or_null (get_prop data ''content'') ''sha'')
                         (chain_or_null (get_prop data ''commit'') ''html_url'') u))))"

text \<open>The results of \<^verbatim>\<open>ghDeleteFile\<close>: \<^verbatim>\<open>{error}\<close> or \<^verbatim>\<open>{ok: true, commitUrl, url}\<close>.\<close>

datatype delete_result =
    DeleteError gh_error
  | DeleteOk json string

text \<open>
  Lines 63 to 70: the request carries the hash as it was read; \<^verbatim>\<open>JSON.stringify\<close> leaves
  an \<^verbatim>\<open>undefined\<close> one out. \<open>now\<close> is the time in the commit message.
\<close>

definition delete_request ::
  "string \<Rightarrow> string \<Rightarrow> string \<Rightarrow> string \<Rightarrow> string \<Rightarrow> json option \<Rightarrow> string \<Rightarrow> fetch_request" where
  "delete_request token owner repo path branch sha now =
     \<lparr>rq_method = ''DELETE'', rq_url = contents_url owner repo path,
      rq_headers = (''Content-Type'', ''application/json'') # ghHeaders token,
      rq_body = Some (JObj ([(''message'', JStr (''Delete '' @ path @ '' ('' @ now @ '')''))]
                            @ (case sha of None \<Rightarrow> [] | Some h \<Rightarrow> [(''sha'', h)])
                            @ [(''branch'', JStr branch)]))\<rparr>"

text \<open>A response that does not parse counts as \<^verbatim>\<open>{}\<close>.\<close>

definition ghDeleteFile ::
  "string \<Rightarrow> string \<Rightarrow> string \<Rightarrow> string \<Rightarrow> string \<Rightarrow> json option \<Rightarrow> delete_result io" where
  "ghDeleteFile token owner repo path branch sha =
     io_bind Date_now
       (\<lambda>now.
          let rq = delete_request token owner repo path branch sha now; u = rq_url rq in
          io_bind (fetch rq)
            (\<lambda>r.
               if \<not> rs_ok r then io_return (DeleteError (wrap_error ''github_delete'' r u))
               else
                 (let data = (case JSON_parse (if rs_raw r = [] then ''{}'' else rs_raw r) of
                                None \<Rightarrow> JObj []
                              | Some d \<Rightarrow> d)
                  in
                  if data = JNull then io_throw TypeError
                  else io_return (DeleteOk (chain_or_null (get_prop data ''commit'') ''html_url'') u))))"

text \<open>
  \<^verbatim>\<open>id\<close> is the query parameter, \<open>None\<close> when it is absent; \<open>id_text\<close> is line 79,
  \<^verbatim>\<open>String(id || '').trim()\<close>.
\<close>

definition id_text :: "string option \<Rightarrow> string" where
  "id_text ident = js_trim (case ident of None \<Rightarrow> [] | Some x \<Rightarrow> x)"

definition safeDashId :: "string option \<Rightarrow> string option" where
  "safeDashId ident =
     (let s = id_text ident in
      if s = [] then None
      else if \<not> dash_re s then None
      else Some s)"

text \<open>
  The results of \<^verbatim>\<open>loadManifest\<close>: \<^verbatim>\<open>{error}\<close> or \<^verbatim>\<open>{exists, sha, list}\<close>. For a missing
  file the hash is \<^verbatim>\<open>null\<close>.
\<close>

datatype manifest_result =
    ManifestError gh_error
  | Manifest bool "json option" "json list"

definition loadManifest :: "string \<Rightarrow> string \<Rightarrow> string \<Rightarrow> string \<Rightarrow> manifest_result io" where
  "loadManifest token owner repo branch =
     io_bind (ghGetFile token owner repo MANIFEST_PATH branch)
       (\<lambda>file.
          case file of
            GetError e \<Rightarrow> io_return (ManifestError e)
          | GetMissing u \<Rightarrow> io_return (Manifest False (Some JNull) [])
          | GetExists sha contentB64 u \<Rightarrow>
              (case JSON_parse (fromBase64 contentB64) of
                 Some (JArr list) \<Rightarrow> io_return (Manifest True sha list)
               | Some other \<Rightarrow> io_return (Manifest True sha [])
               | None \<Rightarrow> io_return (Manifest True sha [])))"

definition saveManifest ::
  "string \<Rightarrow> string \<Rightarrow> string \<Rightarrow> string \<Rightarrow> json option \<Rightarrow> json list \<Rightarrow> put_result io" where
  "saveManifest token owner repo branch manifestSha list =
     (let contentStr = JSON_stringify (JArr list) in
      io_bind Date_now
        (\<lambda>now.
           ghPutFile token owner repo MANIFEST_PATH branch (''Update manifest ('' @ now @ '')'')
             contentStr manifestSha))"


section \<open>The request handler\<close>

text \<open>
  The request as the handler reads it: the method, the query parameters \<^verbatim>\<open>dash\<close> and
  \<^verbatim>\<open>list\<close>, and the body, which the platform hands over parsed (a JSON value), as text
  (a \<^const>\<open>JStr\<close>) or not at all (\<open>None\<close>).
\<close>

record http_request =
  req_method :: string
  query_dash :: "string option"
  query_list :: "string option"
  req_body :: "json option"

record http_response =
  res_headers :: "(string \<times> string) list"
  code :: nat
  payload :: "json option"

text \<open>\<^verbatim>\<open>process.env\<close>.\<close>

record env =
  GITHUB_TOKEN :: "string option"
  GITHUB_OWNER :: "string option"
  GITHUB_REPO :: "string option"
  GITHUB_BRANCH :: "string option"

definition setCors :: "(string \<times> string) list" where
  "setCors =
     [(''Access-Control-Allow-Origin'', ''*''),
      (''Access-Control-Allow-Headers'', ''Content-Type, Authorization''),
      (''Access-Control-Allow-Methods'', ''GET, POST, DELETE, OPTIONS'')]"

text \<open>\<^verbatim>\<open>res.status(c).json(v)\<close>, after \<^verbatim>\<open>setCors(res)\<close>.\<close>

definition respond :: "nat \<Rightarrow> json \<Rightarrow> http_response" where
  "respond c v = \<lparr>res_headers = setCors, code = c, payload = Some v\<rparr>"

definition error_json :: "gh_error \<Rightarrow> json" where
  "error_json e =
     JObj [(''stage'', JStr (stage e)), (''status'', JNum (int (status e))),
           (''statusText'', JStr (statusText e)), (''url'', JStr (url e)), (''raw'', JStr (raw e))]"

definition failed :: "string \<Rightarrow> gh_error \<Rightarrow> http_response" where
  "failed msg e = respond 502 (JObj [(''error'', JStr msg), (''details'', error_json e)])"

definition invalid_id :: http_response where
  "invalid_id = respond 400 (JObj [(''error'', JStr ''Missing/invalid dash id'')])"

definition dash_path :: "string \<Rightarrow> string" where
  "dash_path ident = DASH_DIR @ ''/'' @ ident @ ''.json''"

text \<open>\<^verbatim>\<open>typeof v === 'object'\<close> for a truthy value.\<close>

fun is_object :: "json \<Rightarrow> bool" where
  "is_object (JObj kvs) = True"
| "is_object (JArr xs) = True"
| "is_object v = False"

text \<open>
  Lines 151 to 153: the body if it is an object, else \<^verbatim>\<open>JSON.parse(req.body || '{}')\<close>,
  and \<^verbatim>\<open>{}\<close> if that throws. \<^verbatim>\<open>JSON.parse\<close> converts its argument to a string first.
\<close>

definition request_payload :: "json option \<Rightarrow> json" where
  "request_payload body =
     (case body of
        None \<Rightarrow> (case JSON_parse ''{}'' of None \<Rightarrow> JObj [] | Some p \<Rightarrow> p)
      | Some b \<Rightarrow>
          if truthy b \<and> is_object b then b
          else
            (case (if truthy b
                   then (case js_String b of None \<Rightarrow> None | Some s \<Rightarrow> JSON_parse s)
                   else JSON_parse ''{}'') of
               None \<Rightarrow> JObj []
             | Some p \<Rightarrow> p))"

text \<open>
  Line 155: \<^verbatim>\<open>hasOwnProperty.call(payload, 'state') ? payload.state : null\<close>. The call
  throws a TypeError for \<^verbatim>\<open>null\<close> (\<open>None\<close>); an array, a string, a number or a boolean
  has no own property \<^verbatim>\<open>state\<close>.
\<close>

fun payload_state :: "json \<Rightarrow> json option" where
  "payload_state JNull = None"
| "payload_state (JObj kvs) = (case map_of kvs ''state'' of None \<Rightarrow> Some JNull | Some v \<Rightarrow> Some v)"
| "payload_state v = Some JNull"

text \<open>
  Line 169: \<^verbatim>\<open>state && state.__meta && state.__meta.name ? String(state.__meta.name) : null\<close>;
  \<open>None\<close> when \<^verbatim>\<open>String\<close> throws.
\<close>

definition derive_name :: "json \<Rightarrow> json option" where
  "derive_name state =
     (if \<not> truthy state then Some JNull
      else
        (case get_prop state ''__meta'' of
           None \<Rightarrow> Some JNull
         | Some m \<Rightarrow>
             if \<not> truthy m then Some JNull
             else
               (case get_prop m ''name'' of
                  None \<Rightarrow> Some JNull
                | Some nm \<Rightarrow>
                    if \<not> truthy nm then Some JNull
                    else (case js_String nm of None \<Rightarrow> None | Some s \<Rightarrow> Some (JStr s)))))"

text \<open>\<^verbatim>\<open>xs.findIndex(p)\<close>, \<open>None\<close> for \<^verbatim>\<open>-1\<close>.\<close>

fun findIndex :: "('a \<Rightarrow> bool) \<Rightarrow> 'a list \<Rightarrow> nat option" where
  "findIndex p [] = None"
| "findIndex p (x # xs) =
     (if p x then Some 0 else (case findIndex p xs of None \<Rightarrow> None | Some i \<Rightarrow> Some (Suc i)))"

text \<open>The test \<^verbatim>\<open>x && x.id === id\<close> of lines 170 and 195.\<close>

definition has_id :: "string \<Rightarrow> json \<Rightarrow> bool" where
  "has_id ident x = (truthy x \<and> get_prop x ''id'' = Some (JStr ident))"

fun own_props :: "json \<Rightarrow> (string \<times> json) list" where
  "own_props (JObj kvs) = kvs"
| "own_props v = []"

text \<open>
  Lines 170 to 173: the entry replaces the first one with this id, keeping the other
  properties of that one (\<^verbatim>\<open>Object.assign({}, list[idx], entry)\<close>), or is pushed.
\<close>

definition upsert_entry :: "json list \<Rightarrow> string \<Rightarrow> json \<Rightarrow> string \<Rightarrow> json list" where
  "upsert_entry list ident name now =
     (let entry = [(''id'', JStr ident), (''name'', name), (''updatedAt'', JStr now)] in
      case findIndex (has_id ident) list of
        Some idx \<Rightarrow>
          list[idx := JObj (Object_assign (Object_assign [] (own_props (list ! idx))) entry)]
      | None \<Rightarrow> list @ [JObj entry])"

text \<open>Line 195: \<^verbatim>\<open>list.filter(x => x && x.id !== id)\<close>.\<close>

definition remove_entry :: "json list \<Rightarrow> string \<Rightarrow> json list" where
  "remove_entry list ident =
     filter (\<lambda>x. truthy x \<and> get_prop x ''id'' \<noteq> Some (JStr ident)) list"

text \<open>Lines 129 to 133: \<^verbatim>\<open>GET ?list=1\<close>.\<close>

definition list_branch :: "string \<Rightarrow> string \<Rightarrow> string \<Rightarrow> string \<Rightarrow> http_response io" where
  "list_branch token owner repo branch =
     io_bind (loadManifest token owner repo branch)
       (\<lambda>man.
          case man of
            ManifestError e \<Rightarrow> io_return (failed ''Manifest GET failed'' e)
          | Manifest ex sha list \<Rightarrow> io_return (respond 200 (JObj [(''dashboards'', JArr list)])))"

text \<open>Lines 135 to 144: \<^verbatim>\<open>GET ?dash=id\<close>.\<close>

definition get_branch ::
  "string \<Rightarrow> string \<Rightarrow> string \<Rightarrow> string \<Rightarrow> string option \<Rightarrow> http_response io" where
  "get_branch token owner repo branch dash =
     (case safeDashId dash of
        None \<Rightarrow> io_return invalid_id
      | Some ident \<Rightarrow>
          io_bind (ghGetFile token owner repo (dash_path ident) branch)
            (\<lambda>file.
               case file of
                 GetError e \<Rightarrow> io_return (failed ''GitHub GET failed'' e)
               | GetMissing u \<Rightarrow>
                   io_return (respond 200 (JObj [(''state'', JNull), (''exists'', JBool False)]))
               | GetExists sha contentB64 u \<Rightarrow>
                   (case JSON_parse (fromBase64 contentB64) of
                      None \<Rightarrow> io_throw SyntaxError
                    | Some state \<Rightarrow>
                        io_return (respond 200 (JObj [(''state'', state), (''exists'', JBool True)])))))"

text \<open>
  Lines 164 to 178, the manifest steps of \<^verbatim>\<open>POST\<close>: load the manifest, derive the name,
  put the entry in, save the manifest. \<open>commitUrl\<close> is the one of the document write.
\<close>

definition post_manifest_steps ::
  "string \<Rightarrow> string \<Rightarrow> string \<Rightarrow> string \<Rightarrow> string \<Rightarrow> json \<Rightarrow> json \<Rightarrow> http_response io" where
  "post_manifest_steps token owner repo branch ident state commitUrl =
     io_bind (loadManifest token owner repo branch)
       (\<lambda>man.
          case man of
            ManifestError e \<Rightarrow> io_return (failed ''Manifest GET failed'' e)
          | Manifest ex sha list \<Rightarrow>
              io_bind Date_now
                (\<lambda>now.
                   case derive_name state of
                     None \<Rightarrow> io_throw TypeError
                   | Some name \<Rightarrow>
                       io_bind
                         (saveManifest token owner repo branch (if ex then sha else Some JNull)
                            (upsert_entry list ident name now))
                         (\<lambda>manSaved.
                            case manSaved of
                              PutError e \<Rightarrow> io_return (failed ''Manifest PUT failed'' e)
                            | PutOk s c u \<Rightarrow>
                                io_return
                                  (respond 200
                                     (JObj [(''ok'', JBool True), (''commitUrl'', commitUrl)])))))"

text \<open>Lines 146 to 179: \<^verbatim>\<open>POST ?dash=id\<close>.\<close>

definition post_branch ::
  "string \<Rightarrow> string \<Rightarrow> string \<Rightarrow> string \<Rightarrow> string option \<Rightarrow> json option \<Rightarrow> http_response io" where
  "post_branch token owner repo branch dash body =
     (case safeDashId dash of
        None \<Rightarrow> io_return invalid_id
      | Some ident \<Rightarrow>
          (case payload_state (request_payload body) of
             None \<Rightarrow> io_throw TypeError
           | Some state \<Rightarrow>
               io_bind (ghGetFile token owner repo (dash_path ident) branch)
                 (\<lambda>existing.
                    case existing of
                      GetError e \<Rightarrow> io_return (failed ''GitHub GET pre-update failed'' e)
                    | _ \<Rightarrow>
                        io_bind Date_now
                          (\<lambda>stamp.
                             io_bind
                               (ghPutFile token owner repo (dash_path ident) branch
                                  (''Update dashboard '' @ ident @ '' ('' @ stamp @ '')'')
                                  (JSON_stringify state)
                                  (case existing of GetExists sha b u \<Rightarrow> sha | _ \<Rightarrow> Some JNull))
                               (\<lambda>saved.
                                  case saved of
                                    PutError e \<Rightarrow> io_return (failed ''GitHub PUT failed'' e)
                                  | PutOk newSha commitUrl u \<Rightarrow>
                                      post_manifest_steps token owner repo branch ident state
                                        commitUrl)))))"

text \<open>
  Lines 193 to 199, the manifest steps of \<^verbatim>\<open>DELETE\<close> and the response after them. The
  result of \<^verbatim>\<open>saveManifest\<close> is not looked at.
\<close>

definition delete_manifest_steps ::
  "string \<Rightarrow> string \<Rightarrow> string \<Rightarrow> string \<Rightarrow> string \<Rightarrow> json \<Rightarrow> http_response io" where
  "delete_manifest_steps token owner repo branch ident commitUrl =
     io_bind (loadManifest token owner repo branch)
       (\<lambda>man.
          let success = respond 200 (JObj [(''ok'', JBool True), (''commitUrl'', commitUrl)]) in
          case man of
            ManifestError e \<Rightarrow> io_return success
          | Manifest ex msha list \<Rightarrow>
              io_bind
                (saveManifest token owner repo branch (if ex then msha else Some JNull)
                   (remove_entry list ident))
                (\<lambda>ignored. io_return success))"

text \<open>Lines 181 to 200: \<^verbatim>\<open>DELETE ?dash=id\<close>.\<close>

definition delete_branch ::
  "string \<Rightarrow> string \<Rightarrow> string \<Rightarrow> string \<Rightarrow> string option \<Rightarrow> http_response io" where
  "delete_branch token owner repo branch dash =
     (case safeDashId dash of
        None \<Rightarrow> io_return invalid_id
      | Some ident \<Rightarrow>
          io_bind (ghGetFile token owner repo (dash_path ident) branch)
            (\<lambda>file.
               case file of
                 GetError e \<Rightarrow> io_return (failed ''GitHub GET pre-delete failed'' e)
               | GetMissing u \<Rightarrow>
                   io_return (respond 200 (JObj [(''ok'', JBool True), (''deleted'', JBool False)]))
               | GetExists sha contentB64 u \<Rightarrow>
                   io_bind (ghDeleteFile token owner repo (dash_path ident) branch sha)
                     (\<lambda>del.
                        case del of
                          DeleteError e \<Rightarrow> io_return (failed ''GitHub DELETE failed'' e)
                        | DeleteOk commitUrl u' \<Rightarrow>
                            delete_manifest_steps token owner repo branch ident commitUrl)))"

definition falsy_var :: "string option \<Rightarrow> bool" where
  "falsy_var v = (v = None \<or> v = Some [])"

definition env_value :: "string option \<Rightarrow> string" where
  "env_value v = (case v of None \<Rightarrow> [] | Some x \<Rightarrow> x)"

text \<open>Lines 128 to 202, the body of the \<^verbatim>\<open>try\<close>.\<close>

definition route :: "string \<Rightarrow> string \<Rightarrow> string \<Rightarrow> string \<Rightarrow> http_request \<Rightarrow> http_response io" where
  "route token owner repo branch req =
     (if req_method req = ''GET'' \<and> \<not> falsy_var (query_list req)
        then list_branch token owner repo branch
      else if req_method req = ''GET'' then get_branch token owner repo branch (query_dash req)
      else if req_method req = ''POST''
        then post_branch token owner repo branch (query_dash req) (req_body req)
      else if req_method req = ''DELETE''
        then delete_branch token owner repo branch (query_dash req)
      else io_return (respond 405 (JObj [(''error'', JStr ''Method not allowed'')])))"

text \<open>
  The exception caught in line 203. Its name is fixed by the kind: \<^verbatim>\<open>JSON.parse\<close>
  throws a SyntaxError, a property read of \<^verbatim>\<open>null\<close> or a failed conversion a
  TypeError, and \<^verbatim>\<open>fetch\<close> rejects with a TypeError. The message of a rejected call
  is the one the rejection came with; every other text is the engine's and is read from
  the world.
\<close>

fun exn_name :: "exn \<Rightarrow> string" where
  "exn_name SyntaxError = ''SyntaxError''"
| "exn_name TypeError = ''TypeError''"
| "exn_name (FetchError msg) = ''TypeError''"

definition exn_message :: "world \<Rightarrow> exn \<Rightarrow> string" where
  "exn_message w x = (case x of FetchError msg \<Rightarrow> msg | _ \<Rightarrow> message_text w x)"

text \<open>
  \<^verbatim>\<open>String(e && e.message ? e.message : e)\<close>; the string of an error with an empty
  message is its name.
\<close>

definition exn_details :: "world \<Rightarrow> exn \<Rightarrow> string" where
  "exn_details w x = (if exn_message w x = [] then exn_name x else exn_message w x)"

text \<open>\<^verbatim>\<open>String(e && e.stack ? e.stack : '')\<close>.\<close>

definition exn_stack :: "world \<Rightarrow> exn \<Rightarrow> string" where
  "exn_stack w x = stack_text w x"

text \<open>\<^verbatim>\<open>module.exports\<close>, lines 109 to 206.\<close>

definition handler :: "env \<Rightarrow> http_request \<Rightarrow> world \<Rightarrow> http_response \<times> world" where
  "handler e req w =
     (if req_method req = ''OPTIONS''
        then (\<lparr>res_headers = setCors, code = 204, payload = None\<rparr>, w)
      else
        (let missing = map fst (filter (\<lambda>kv. falsy_var (snd kv))
                         [(''GITHUB_TOKEN'', GITHUB_TOKEN e), (''GITHUB_OWNER'', GITHUB_OWNER e),
                          (''GITHUB_REPO'', GITHUB_REPO e)])
         in
         if missing \<noteq> [] then
           (respond 500 (JObj [(''error'', JStr ''Missing env vars''),
                               (''missing'', JArr (map JStr missing))]), w)
         else
           (let token = env_value (GITHUB_TOKEN e);
                owner = env_value (GITHUB_OWNER e);
                repo = env_value (GITHUB_REPO e);
                branch = (if falsy_var (GITHUB_BRANCH e) then ''main'' else env_value (GITHUB_BRANCH e))
            in
            if CHR ''/'' \<in> set repo then
              (respond 400 (JObj [(''error'', JStr ''GITHUB_REPO must be repo name only''),
                                  (''got'', JStr repo)]), w)
            else
              (case route token owner repo branch req w of
                 (Return r, w') \<Rightarrow> (r, w')
               | (Throw x, w') \<Rightarrow>
                   (respond 500 (JObj [(''error'', JStr ''Unhandled''),
                                       (''details'', JStr (exn_details w' x)),
                                       (''stack'', JStr (exn_stack w' x))]), w')))))"

section \<open>Notions the proofs use\<close>

text \<open>
  A value as the runtime can hold it: no object has the same key twice, an integer is
  at most \<open>2^53 - 1\<close> in size, and a decimal that is not an integer is in lowest terms,
  of at most 15 digits and at most 300 places after the point. These are values
  \<^verbatim>\<open>JSON.stringify\<close> takes and \<^verbatim>\<open>JSON.parse\<close> returns.
\<close>

fun wf_json :: "json \<Rightarrow> bool" where
  "wf_json (JArr xs) = list_all wf_json xs"
| "wf_json (JObj kvs) = (distinct (map fst kvs) \<and> list_all (\<lambda>kv. wf_json (snd kv)) kvs)"
| "wf_json (JNum i) = (\<bar>i\<bar> < 9007199254740992)"
| "wf_json (JDec m d) = (0 < d \<and> d \<le> 300 \<and> m mod 10 \<noteq> 0 \<and> \<bar>m\<bar> < 1000000000000000)"
| "wf_json v = True"

text \<open>What may follow a number literal, and what a value's text starts with.\<close>

definition ends_number :: "string \<Rightarrow> bool" where
  "ends_number r = (case r of [] \<Rightarrow> True | c # cs \<Rightarrow> \<not> is_digit c \<and> c \<noteq> CHR ''.'' \<and> c \<noteq> CHR ''e'' \<and> c \<noteq> CHR ''E'')"

definition starts_value :: "string \<Rightarrow> bool" where
  "starts_value t = (case t of [] \<Rightarrow> False | c # cs \<Rightarrow> \<not> is_ws c \<and> c \<noteq> CHR '']'' \<and> c \<noteq> CHR ''}'')"

text \<open>
  The round trip of one value at any indentation and before any rest, and the text of the
  elements of an array and of the members of an object up to the closing bracket.
\<close>

definition rt :: "json \<Rightarrow> bool" where
  "rt v = (\<forall>f n r. 2 * length (stringify_at n v @ r) < f \<longrightarrow> ends_number r \<longrightarrow>
             parse_value f (stringify_at n v @ r) = Parsed (v, r))"

definition elems_text :: "nat \<Rightarrow> nat \<Rightarrow> json list \<Rightarrow> string \<Rightarrow> string" where
  "elems_text n m xs r =
     join_with (CHR '','' # newline n) (map (stringify_at n) xs) @ newline m @ CHR '']'' # r"

definition member_text :: "nat \<Rightarrow> string \<times> json \<Rightarrow> string" where
  "member_text n kv = quote (fst kv) @ '': '' @ stringify_at n (snd kv)"

definition members_text :: "nat \<Rightarrow> nat \<Rightarrow> (string \<times> json) list \<Rightarrow> string \<Rightarrow> string" where
  "members_text n m kvs r =
     join_with (CHR '','' # newline n) (map (member_text n) kvs) @ newline m @ CHR ''}'' # r"

text \<open>What \<^const>\<open>encodeGitHubPath\<close> does to one character of a path.\<close>

definition path_byte :: "char \<Rightarrow> string" where
  "path_byte c = (if c = CHR ''/'' then ''/'' else uri_byte c)"

text \<open>
  The next call goes through to the repository, and the world once it has been recorded
  and its entry in the list of faults used up.
\<close>

definition passes :: "world \<Rightarrow> bool" where
  "passes w = (case faults w of [] \<Rightarrow> True | f # fs \<Rightarrow> f = None)"

definition called :: "fetch_request \<Rightarrow> world \<Rightarrow> world" where
  "called rq w = w\<lparr>calls := calls w @ [rq], faults := tl (faults w)\<rparr>"

text \<open>
  The configuration lets the handler through (lines 113 to 123), and the values it reads
  from it.
\<close>

definition configured :: "env \<Rightarrow> bool" where
  "configured e =
     (\<not> falsy_var (GITHUB_TOKEN e) \<and> \<not> falsy_var (GITHUB_OWNER e) \<and> \<not> falsy_var (GITHUB_REPO e)
      \<and> CHR ''/'' \<notin> set (env_value (GITHUB_REPO e)))"

definition branch_of :: "env \<Rightarrow> string" where
  "branch_of e = (if falsy_var (GITHUB_BRANCH e) then ''main'' else env_value (GITHUB_BRANCH e))"

definition no_digit :: "string \<Rightarrow> bool" where
  "no_digit r = (case r of [] \<Rightarrow> True | c # cs \<Rightarrow> \<not> is_digit c)"

definition parse_unsigned :: "string \<Rightarrow> (nat \<times> int \<times> string) option" where
  "parse_unsigned s =
     (case parse_nat s of
        None \<Rightarrow> None
      | Some (n, r) \<Rightarrow>
          (case parse_fraction n r of
             None \<Rightarrow> None
           | Some (m, fd, r1) \<Rightarrow>
               (case parse_exponent r1 of
                  None \<Rightarrow> None
                | Some (ex, r2) \<Rightarrow> Some (m, ex - int fd, r2))))"

definition quiet_world :: "fault option list \<Rightarrow> world" where
  "quiet_world fs = \<lparr>files = Map.empty, commits = 0, faults = fs, calls = [],
                      clock = (\<lambda>k. ''2024-05-01T10:00:0'' @ show_nat k @ ''.000Z''), ticks = 0,
                      message_text = (\<lambda>x. ''Unexpected end of JSON input''),
                      stack_text = (\<lambda>x. ''at module.exports (/var/task/api/state.js)'')\<rparr>"

definition unhandled :: "world \<Rightarrow> exn \<Rightarrow> http_response" where
  "unhandled w x = respond 500 (JObj [(''error'', JStr ''Unhandled''),
                                       (''details'', JStr (exn_details w x)),
                                       (''stack'', JStr (exn_stack w x))])"

definition finish :: "http_response res \<times> world \<Rightarrow> http_response \<times> world" where
  "finish p = (case p of (Return r, w') \<Rightarrow> (r, w') | (Throw x, w') \<Rightarrow> (unhandled w' x, w'))"

definition id_alphabet :: string where
  "id_alphabet = ''abcdefghijklmnopqrstuvwxyz'' @ ''ABCDEFGHIJKLMNOPQRSTUVWXYZ'' @ ''0123456789'' @ ''_-''"

definition spec_id_format :: "string \<Rightarrow> bool" where
  "spec_id_format t = (3 \<le> length t \<and> length t \<le> 80 \<and> list_all (\<lambda>c. c \<in> set id_alphabet) t)"

definition entry_id :: "json \<Rightarrow> string option" where
  "entry_id x =
     (if truthy x then (case get_prop x ''id'' of Some (JStr i) \<Rightarrow> Some i | _ \<Rightarrow> None) else None)"

definition manifest_ids :: "json list \<Rightarrow> string list" where
  "manifest_ids list = List.map_filter entry_id list"

definition unique_by_id :: "json list \<Rightarrow> bool" where
  "unique_by_id list = distinct (manifest_ids list)"

definition example_env :: env where
  "example_env = \<lparr>GITHUB_TOKEN = Some ''tok'', GITHUB_OWNER = Some ''me'',
                   GITHUB_REPO = Some ''boards'', GITHUB_BRANCH = None\<rparr>"

definition example_manifest :: "json list" where
  "example_manifest =
     [JObj [(''id'', JStr ''alpha''), (''name'', JNull), (''updatedAt'', JStr ''2024-05-01'')],
      JObj [(''id'', JStr ''beta''), (''name'', JStr ''B''), (''updatedAt'', JStr ''2024-05-02''),
            (''pinned'', JBool True)],
      JObj [(''id'', JStr ''gamma''), (''name'', JNull), (''updatedAt'', JStr ''2024-05-03'')]]"

abbreviation token_of :: "env \<Rightarrow> string" where
  "token_of e \<equiv> env_value (GITHUB_TOKEN e)"

abbreviation owner_of :: "env \<Rightarrow> string" where
  "owner_of e \<equiv> env_value (GITHUB_OWNER e)"

abbreviation repo_of :: "env \<Rightarrow> string" where
  "repo_of e \<equiv> env_value (GITHUB_REPO e)"

abbreviation doc_read :: "env \<Rightarrow> string \<Rightarrow> get_result io" where
  "doc_read e ident \<equiv> ghGetFile (token_of e) (owner_of e) (repo_of e) (dash_path ident) (branch_of e)"

abbreviation doc_delete :: "env \<Rightarrow> string \<Rightarrow> json option \<Rightarrow> delete_result io" where
  "doc_delete e ident sha \<equiv>
     ghDeleteFile (token_of e) (owner_of e) (repo_of e) (dash_path ident) (branch_of e) sha"

abbreviation index_load :: "env \<Rightarrow> manifest_result io" where
  "index_load e \<equiv> loadManifest (token_of e) (owner_of e) (repo_of e) (branch_of e)"

abbreviation index_save :: "env \<Rightarrow> json option \<Rightarrow> json list \<Rightarrow> put_result io" where
  "index_save e sha list \<equiv> saveManifest (token_of e) (owner_of e) (repo_of e) (branch_of e) sha list"

abbreviation doc_url :: "env \<Rightarrow> string \<Rightarrow> string" where
  "doc_url e ident \<equiv> contents_url (owner_of e) (repo_of e) (dash_path ident)"

abbreviation doc_get_request :: "env \<Rightarrow> string \<Rightarrow> fetch_request" where
  "doc_get_request e ident \<equiv>
     get_request (token_of e) (owner_of e) (repo_of e) (dash_path ident) (branch_of e)"

definition deleted_ok :: "json \<Rightarrow> http_response" where
  "deleted_ok commitUrl = respond 200 (JObj [(''ok'', JBool True), (''commitUrl'', commitUrl)])"

definition stored_world :: "(string \<Rightarrow> string option) \<Rightarrow> fault option list \<Rightarrow> world" where
  "stored_world fm fs = \<lparr>files = fm, commits = 7, faults = fs, calls = [],
                         clock = (\<lambda>k. ''2024-05-01T10:00:0'' @ show_nat k @ ''.000Z''), ticks = 0,
                         message_text = (\<lambda>x. ''Unexpected end of JSON input''),
                         stack_text = (\<lambda>x. ''at module.exports (/var/task/api/state.js)'')\<rparr>"


section \<open>Proofs\<close>

lemma char_of_eq_lit: "n < 256 \<Longrightarrow> (char_of (n::nat) = c) = (n = of_char c)"
  by (auto simp: char_of_eq_iff take_bit_eq_mod)

lemma is_digit_digit_char: "d < 10 \<Longrightarrow> is_digit (digit_char d)"
  by (simp add: is_digit_def digit_char_def)

lemma digit_val_digit_char: "d < 10 \<Longrightarrow> digit_val (digit_char d) = d"
  by (simp add: digit_val_def digit_char_def)

lemma show_nat_digits: "list_all is_digit (show_nat n)"
  by (induction n rule: show_nat.induct) (subst show_nat.simps, simp add: is_digit_digit_char)

lemma show_nat_not_Nil: "show_nat n \<noteq> []"
  by (subst show_nat.simps) simp

lemma parse_digits_append:
  "list_all is_digit ds \<Longrightarrow>
   parse_digits acc (ds @ r) = parse_digits (foldl (\<lambda>a c. a * 10 + digit_val c) acc ds) r"
  by (induction ds arbitrary: acc) auto

lemma foldl_show_nat: "foldl (\<lambda>a c. a * 10 + digit_val c) 0 (show_nat n) = n"
proof (induction n rule: show_nat.induct)
  case (1 n)
  show ?case
  proof (cases "n < 10")
    case True
    then show ?thesis by (subst show_nat.simps) (simp add: digit_val_digit_char)
  next
    case False
    with 1 show ?thesis by (subst show_nat.simps) (simp add: digit_val_digit_char)
  qed
qed

lemma parse_digits_stop: "ends_number r \<Longrightarrow> parse_digits acc r = (acc, r)"
  by (cases r) (auto simp: ends_number_def)

lemma hd_show_nat: "0 < n \<Longrightarrow> hd (show_nat n) \<noteq> CHR ''0''"
proof (induction n rule: show_nat.induct)
  case (1 n)
  show ?case
  proof (cases "n < 10")
    case True
    with 1(2) show ?thesis by (subst show_nat.simps) (simp add: digit_char_def char_of_eq_lit)
  next
    case False
    then have "0 < n div 10" by simp
    with 1 False show ?thesis by (subst show_nat.simps) (simp add: show_nat_not_Nil)
  qed
qed

lemma parse_nat_show_nat:
  assumes "ends_number r"
  shows "parse_nat (show_nat n @ r) = Some (n, r)"
proof (cases "n = 0")
  case True
  then show ?thesis by (subst show_nat.simps) (simp add: parse_nat_def digit_char_def char_of_eq_lit)
next
  case False
  obtain c cs where c: "show_nat n = c # cs" using show_nat_not_Nil by (cases "show_nat n") auto
  have "c \<noteq> CHR ''0''" using hd_show_nat[of n] False c by simp
  moreover have "is_digit c" using show_nat_digits[of n] c by simp
  moreover have "parse_digits 0 (show_nat n @ r) = (n, r)"
    using assms by (simp add: parse_digits_append show_nat_digits foldl_show_nat parse_digits_stop)
  ultimately show ?thesis using c by (simp add: parse_nat_def)
qed

lemma parse_number_unsigned:
  "parse_number (c # cs) =
     (case parse_unsigned (if c = CHR ''-'' then cs else c # cs) of
        None \<Rightarrow> None
      | Some (m, sc, r) \<Rightarrow> Some (make_number (if c = CHR ''-'' then - int m else int m) sc, r))"
  by (simp add: parse_number_def parse_unsigned_def split: option.splits)

lemma ends_number_no_digit: "ends_number r \<Longrightarrow> no_digit r"
  by (cases r) (auto simp: ends_number_def no_digit_def)

lemma no_digit_lit [simp]: "no_digit (CHR ''.'' # t)" "no_digit (CHR ''e'' # t)"
  by (simp_all add: no_digit_def is_digit_def)

lemma parse_digits_run:
  assumes "list_all is_digit ds" "no_digit r"
  shows "parse_digits acc (ds @ r) = (foldl (\<lambda>a c. a * 10 + digit_val c) acc ds, r)"
    and "takeWhile is_digit (ds @ r) = ds"
proof -
  have s: "parse_digits b r = (b, r)" for b
    using assms(2) by (cases r) (auto simp: no_digit_def)
  show "parse_digits acc (ds @ r) = (foldl (\<lambda>a c. a * 10 + digit_val c) acc ds, r)"
    by (simp add: parse_digits_append[OF assms(1)] s)
  have "takeWhile is_digit r = []" using assms(2) by (cases r) (auto simp: no_digit_def)
  then show "takeWhile is_digit (ds @ r) = ds"
    using assms(1) by (simp add: takeWhile_append2 list_all_iff)
qed

lemma parse_nat_digits:
  assumes "list_all is_digit ds" "ds \<noteq> []" "hd ds \<noteq> CHR ''0''" "no_digit r"
  shows "parse_nat (ds @ r) = Some (foldl (\<lambda>a c. a * 10 + digit_val c) 0 ds, r)"
proof -
  obtain c cs where c: "ds = c # cs" using assms(2) by (cases ds) auto
  have "is_digit c" "c \<noteq> CHR ''0''" using assms(1,3) c by simp_all
  then have "parse_nat (ds @ r) = Some (parse_digits 0 (ds @ r))"
    using c by (simp add: parse_nat_def)
  then show ?thesis by (simp add: parse_digits_run(1)[OF assms(1,4)])
qed

lemma parse_fraction_none: "ends_number r \<Longrightarrow> parse_fraction n r = Some (n, 0, r)"
  by (cases r) (auto simp: parse_fraction_def ends_number_def)

lemma parse_fraction_e: "parse_fraction n (CHR ''e'' # t) = Some (n, 0, CHR ''e'' # t)"
  by (simp add: parse_fraction_def)

lemma parse_fraction_digits:
  assumes "list_all is_digit ds" "ds \<noteq> []" "no_digit r"
  shows "parse_fraction n (CHR ''.'' # ds @ r)
         = Some (foldl (\<lambda>a c. a * 10 + digit_val c) n ds, length ds, r)"
  using assms(2)
  by (simp add: parse_fraction_def parse_digits_run[OF assms(1,3)])

lemma parse_exponent_none: "ends_number r \<Longrightarrow> parse_exponent r = Some (0, r)"
  by (cases r) (auto simp: parse_exponent_def ends_number_def)

lemma parse_exponent_minus:
  assumes "ends_number r"
  shows "parse_exponent (''e-'' @ show_nat x @ r) = Some (- int x, r)"
proof -
  have d: "list_all is_digit (show_nat x)" by (rule show_nat_digits)
  note run = parse_digits_run[OF d ends_number_no_digit[OF assms]]
  show ?thesis
    using show_nat_not_Nil[of x]
    by (simp add: parse_exponent_def Let_def run foldl_show_nat)
qed

lemma show_nat_0: "show_nat 0 = ''0''"
  by (subst show_nat.simps) (simp add: digit_char_def char_of_eq_lit)

lemma show_nat_length: "n < 10 ^ Suc k \<Longrightarrow> length (show_nat n) \<le> Suc k"
proof (induction k arbitrary: n)
  case 0
  then show ?case by (subst show_nat.simps) simp
next
  case (Suc k)
  show ?case
  proof (cases "n < 10")
    case True
    then show ?thesis by (subst show_nat.simps) simp
  next
    case False
    have "n div 10 < 10 ^ Suc k" using Suc.prems by (simp add: less_mult_imp_div_less)
    from Suc.IH[OF this] False show ?thesis by (subst show_nat.simps) simp
  qed
qed

lemma foldl_zeros:
  "foldl (\<lambda>a c. a * 10 + digit_val c) 0 (replicate z (CHR ''0'')) = 0"
  by (induction z) (simp_all add: digit_val_def)

lemma zeros_digits: "list_all is_digit (replicate z (CHR ''0''))"
  by (simp add: list_all_iff is_digit_def)

text \<open>The text of a decimal is read back: its digits and the place of its point.\<close>

lemma parse_unsigned_number_text:
  assumes "ends_number r" "0 < d" "0 < a" "length (show_nat a) \<le> 21"
  shows "parse_unsigned (number_text (show_nat a) (int (length (show_nat a)) - int d) @ r)
         = Some (a, - int d, r)"
proof -
  define ds where "ds = show_nat a"
  define k where "k = length ds"
  define n where "n = int k - int d"
  have dg: "list_all is_digit ds" unfolding ds_def by (rule show_nat_digits)
  have ne: "ds \<noteq> []" unfolding ds_def by (rule show_nat_not_Nil)
  have h0: "hd ds \<noteq> CHR ''0''" unfolding ds_def using hd_show_nat[OF assms(3)] .
  have v: "foldl (\<lambda>a c. a * 10 + digit_val c) 0 ds = a" unfolding ds_def by (rule foldl_show_nat)
  have k0: "0 < k" using ne by (simp add: k_def)
  have k21: "k \<le> 21" using assms(4) by (simp add: k_def ds_def)
  have nk: "n < int k" using assms(2) by (simp add: n_def)
  note nd = ends_number_no_digit[OF assms(1)]
  consider (fixed) "0 < n" | (small) "- 6 < n" "n \<le> 0" | (expo) "n \<le> - 6" by linarith
  then have "parse_unsigned (number_text ds n @ r) = Some (a, - int d, r)"
  proof cases
    case fixed
    define j where "j = nat n"
    have j: "0 < j" "j < k" "k - j = d" using fixed nk unfolding j_def n_def by linarith+
    have tx: "number_text ds n @ r = take j ds @ CHR ''.'' # drop j ds @ r"
      using fixed nk k21 by (simp add: number_text_def Let_def k_def[symmetric] j_def)
    have i1: "list_all is_digit (take j ds)" "list_all is_digit (drop j ds)"
      using dg by (auto simp: list_all_iff dest: in_set_takeD in_set_dropD)
    have i2: "take j ds \<noteq> []" "drop j ds \<noteq> []" using j ne by (simp_all add: k_def)
    have i3: "hd (take j ds) \<noteq> CHR ''0''" using h0 j(1) by (simp add: hd_take)
    have p1: "parse_nat (take j ds @ CHR ''.'' # drop j ds @ r)
              = Some (foldl (\<lambda>a c. a * 10 + digit_val c) 0 (take j ds), CHR ''.'' # drop j ds @ r)"
      by (rule parse_nat_digits[OF i1(1) i2(1) i3]) simp
    have "foldl (\<lambda>a c. a * 10 + digit_val c) (foldl (\<lambda>a c. a * 10 + digit_val c) 0 (take j ds)) (drop j ds)
          = foldl (\<lambda>a c. a * 10 + digit_val c) 0 (take j ds @ drop j ds)"
      by (simp only: foldl_append)
    then have v2: "foldl (\<lambda>a c. a * 10 + digit_val c) (foldl (\<lambda>a c. a * 10 + digit_val c) 0 (take j ds)) (drop j ds) = a"
      using v by simp
    have ln: "length ds - j = d" using j(3) by (simp add: k_def)
    show ?thesis
      unfolding tx
      by (simp add: parse_unsigned_def p1 parse_fraction_digits[OF i1(2) i2(2) nd] v2
            parse_exponent_none[OF assms(1)] ln)
  next
    case small
    define z where "z = nat (- n)"
    have z: "int (z + k) = int d" using small by (simp add: z_def n_def)
    have tx: "number_text ds n @ r = CHR ''0'' # CHR ''.'' # (replicate z (CHR ''0'') @ ds) @ r"
      using small nk k0 by (simp add: number_text_def Let_def k_def[symmetric] z_def)
    have p1: "parse_nat (CHR ''0'' # CHR ''.'' # (replicate z (CHR ''0'') @ ds) @ r)
              = Some (0, CHR ''.'' # (replicate z (CHR ''0'') @ ds) @ r)"
      by (simp add: parse_nat_def)
    have i1: "list_all is_digit (replicate z (CHR ''0'') @ ds)" using dg zeros_digits by simp
    have i2: "replicate z (CHR ''0'') @ ds \<noteq> []" using ne by simp
    have v2: "foldl (\<lambda>a c. a * 10 + digit_val c) 0 (replicate z (CHR ''0'') @ ds) = a"
      by (simp only: foldl_append foldl_zeros v)
    have ln: "int (length (replicate z (CHR ''0'') @ ds)) = int d" using z by (simp add: k_def)
    show ?thesis
      unfolding tx
      by (simp only: parse_unsigned_def p1 parse_fraction_digits[OF i1 i2 nd] v2
            parse_exponent_none[OF assms(1)] ln option.case prod.case) simp
  next
    case expo
    define x where "x = nat (1 - n)"
    have x: "int x = 1 - n" "n - 1 < 0" "nat \<bar>n - 1\<bar> = x" using expo by (simp_all add: x_def)
    have nb: "\<not> (int k \<le> n \<and> n \<le> 21)" "\<not> (0 < n \<and> n \<le> 21)" "\<not> (- 6 < n \<and> n \<le> 0)"
      using expo nk by simp_all
    show ?thesis
    proof (cases "k = 1")
      case True
      have tx: "number_text ds n @ r = ds @ ''e-'' @ show_nat x @ r"
        using nb x True by (simp add: number_text_def Let_def k_def[symmetric])
      have p1: "parse_nat (ds @ ''e-'' @ show_nat x @ r)
                = Some (foldl (\<lambda>a c. a * 10 + digit_val c) 0 ds, ''e-'' @ show_nat x @ r)"
        by (rule parse_nat_digits[OF dg ne h0]) simp
      have p2: "parse_fraction a (''e-'' @ show_nat x @ r) = Some (a, 0, ''e-'' @ show_nat x @ r)"
        by (simp add: parse_fraction_e)
      have sc: "- int x - int 0 = - int d" using True x(1) by (simp add: n_def)
      show ?thesis
        unfolding tx
        by (simp only: parse_unsigned_def p1 v p2 parse_exponent_minus[OF assms(1)] sc
              option.case prod.case)
    next
      case False
      obtain c cs where c: "ds = c # cs" using ne by (cases ds) auto
      have cs: "cs \<noteq> []" "list_all is_digit cs" "is_digit c" "c \<noteq> CHR ''0''"
        using False k0 dg h0 c by (auto simp: k_def)
      have tx: "number_text ds n @ r = [c] @ CHR ''.'' # cs @ ''e-'' @ show_nat x @ r"
        using nb x False c cs(1) by (simp add: number_text_def Let_def k_def[symmetric])
      have p1: "parse_nat ([c] @ CHR ''.'' # cs @ ''e-'' @ show_nat x @ r)
                = Some (foldl (\<lambda>a c. a * 10 + digit_val c) 0 [c], CHR ''.'' # cs @ ''e-'' @ show_nat x @ r)"
        by (rule parse_nat_digits) (use cs in simp_all)
      have p2: "parse_fraction (foldl (\<lambda>a c. a * 10 + digit_val c) 0 [c]) (CHR ''.'' # cs @ ''e-'' @ show_nat x @ r)
                = Some (foldl (\<lambda>a c. a * 10 + digit_val c) (foldl (\<lambda>a c. a * 10 + digit_val c) 0 [c]) cs,
                        length cs, ''e-'' @ show_nat x @ r)"
        by (rule parse_fraction_digits[OF cs(2,1)]) simp
      have v2: "foldl (\<lambda>a c. a * 10 + digit_val c) (foldl (\<lambda>a c. a * 10 + digit_val c) 0 [c]) cs = a"
        using v c by simp
      have sc: "- int x - int (length cs) = - int d" using x(1) c by (simp add: n_def k_def)
      show ?thesis
        unfolding tx
        by (simp only: parse_unsigned_def p1 p2 v2 parse_exponent_minus[OF assms(1)] sc
              option.case prod.case)
    qed
  qed
  then show ?thesis by (simp add: ds_def k_def n_def)
qed

lemma lowest_terms_id: "0 < d \<Longrightarrow> m mod 10 \<noteq> 0 \<Longrightarrow> lowest_terms m d = JDec m d"
  by (cases d) simp_all

lemma parse_number_dec_text:
  assumes "ends_number r" "0 < d" "m mod 10 \<noteq> 0" "\<bar>m\<bar> < 1000000000000000"
  shows "parse_number (dec_text m d @ r) = Some (JDec m d, r)"
proof -
  define a where "a = nat \<bar>m\<bar>"
  have a0: "0 < a" using assms(3) by (auto simp: a_def)
  have "a < 10 ^ Suc 14" using assms(4) by (simp add: a_def)
  then have "length (show_nat a) \<le> Suc 14" by (rule show_nat_length)
  then have l: "length (show_nat a) \<le> 21" by simp
  note u = parse_unsigned_number_text[OF assms(1,2) a0 l]
  let ?t = "number_text (show_nat a) (int (length (show_nat a)) - int d)"
  have mk: "make_number m (- int d) = JDec m d"
    using assms(2,3) by (simp add: make_number_def lowest_terms_id)
  show ?thesis
  proof (cases "m < 0")
    case True
    then have m: "- int a = m" by (simp add: a_def)
    have "dec_text m d @ r = CHR ''-'' # ?t @ r" using True by (simp add: dec_text_def a_def)
    then show ?thesis by (simp add: parse_number_unsigned u m mk)
  next
    case False
    then have m: "int a = m" by (simp add: a_def)
    obtain c cs where c: "?t @ r = c # cs" "c \<noteq> CHR ''-''"
    proof -
      have "parse_unsigned (?t @ r) \<noteq> None" using u by simp
      then obtain c cs where cc: "?t @ r = c # cs" "parse_nat (c # cs) \<noteq> None"
        by (cases "?t @ r") (auto simp: parse_unsigned_def parse_nat_def split: option.splits)
      then have "c \<noteq> CHR ''-''" by (auto simp: parse_nat_def is_digit_def split: if_splits)
      with cc(1) show ?thesis using that by blast
    qed
    have "dec_text m d @ r = c # cs" using False c(1) by (simp add: dec_text_def a_def)
    moreover have "parse_unsigned (c # cs) = Some (a, - int d, r)" using u c(1) by simp
    ultimately show ?thesis using c(2) by (simp add: parse_number_unsigned m mk)
  qed
qed

lemma strip_zeros_pad:
  "strip_zeros ds @ replicate (length ds - length (strip_zeros ds)) (CHR ''0'') = ds"
proof -
  let ?P = "\<lambda>c. c = CHR ''0''"
  have t: "takeWhile ?P (rev ds) = replicate (length (takeWhile ?P (rev ds))) (CHR ''0'')"
    by (rule replicate_length_same[symmetric]) (auto dest: set_takeWhileD)
  have "length ds = length (takeWhile ?P (rev ds)) + length (dropWhile ?P (rev ds))"
    by (metis length_append length_rev takeWhile_dropWhile_id)
  then have l: "length ds - length (strip_zeros ds) = length (takeWhile ?P (rev ds))"
    by (simp add: strip_zeros_def)
  have "ds = rev (takeWhile ?P (rev ds) @ dropWhile ?P (rev ds))" by simp
  also have "\<dots> = strip_zeros ds @ rev (takeWhile ?P (rev ds))"
    by (simp only: rev_append strip_zeros_def)
  also have "rev (takeWhile ?P (rev ds)) = replicate (length (takeWhile ?P (rev ds))) (CHR ''0'')"
    by (subst t) simp
  finally show ?thesis using l by simp
qed

lemma strip_zeros_length: "length (strip_zeros ds) \<le> length ds"
  by (simp add: strip_zeros_def) (metis length_dropWhile_le length_rev)

lemma int_text_show_int:
  assumes "\<bar>i\<bar> < 10 ^ 21"
  shows "int_text i = show_int i"
proof (cases "i = 0")
  case True
  then show ?thesis by (simp add: int_text_def show_int_def show_nat_0)
next
  case False
  define ds where "ds = show_nat (nat \<bar>i\<bar>)"
  have "nat \<bar>i\<bar> < 10 ^ Suc 20" using assms by (simp add: nat_less_iff)
  then have "length ds \<le> Suc 20" unfolding ds_def by (rule show_nat_length)
  then have "number_text (strip_zeros ds) (int (length ds))
             = strip_zeros ds @ replicate (length ds - length (strip_zeros ds)) (CHR ''0'')"
    using strip_zeros_length[of ds] by (simp add: number_text_def Let_def nat_diff_distrib')
  then have "number_text (strip_zeros ds) (int (length ds)) = ds" by (simp add: strip_zeros_pad)
  then show ?thesis using False
    by (cases "i < 0") (simp_all add: int_text_def show_int_def ds_def abs_if)
qed

lemma parse_number_show_int:
  assumes "ends_number r"
  shows "parse_number (show_int i @ r) = Some (JNum i, r)"
proof (cases "i < 0")
  case True
  then show ?thesis using assms
    by (simp add: show_int_def parse_number_def parse_nat_show_nat parse_fraction_none
          parse_exponent_none make_number_def)
next
  case False
  obtain c cs where c: "show_nat (nat i) = c # cs" using show_nat_not_Nil by (cases "show_nat (nat i)") auto
  have "is_digit c" using show_nat_digits[of "nat i"] c by simp
  then have "c \<noteq> CHR ''-''" by (auto simp: is_digit_def)
  moreover have "parse_nat (c # cs @ r) = Some (nat i, r)" using parse_nat_show_nat[OF assms, of "nat i"] c by simp
  ultimately show ?thesis using False c assms
    by (simp add: show_int_def parse_number_def parse_fraction_none parse_exponent_none
          make_number_def)
qed

lemma parse_number_int_text:
  assumes "ends_number r" "\<bar>i\<bar> < 9007199254740992"
  shows "parse_number (int_text i @ r) = Some (JNum i, r)"
proof -
  have "\<bar>i\<bar> < 10 ^ 21" using assms(2) by simp
  then show ?thesis by (simp add: int_text_show_int parse_number_show_int[OF assms(1)])
qed

lemma hex_val_hex_digit: "d < 16 \<Longrightarrow> hex_val (hex_digit d) = Some d"
  by (auto simp: hex_val_def hex_digit_def Let_def)

lemma hex_val_zero: "hex_val (CHR ''0'') = Some 0"
  by (simp add: hex_val_def)

lemma parse_chars_esc_char:
  "parse_chars (esc_char c @ t) = (case parse_chars t of None \<Rightarrow> None | Some (s, r) \<Rightarrow> Some (c # s, r))"
proof -
  consider (short) "c = CHR 0x22 \<or> c = CHR 0x5C \<or> c = CHR 0x08 \<or> c = CHR 0x0C \<or> c = CHR 0x0A \<or> c = CHR 0x0D \<or> c = CHR 0x09"
    | (ctl) "\<not> (c = CHR 0x22 \<or> c = CHR 0x5C \<or> c = CHR 0x08 \<or> c = CHR 0x0C \<or> c = CHR 0x0A \<or> c = CHR 0x0D \<or> c = CHR 0x09)" "of_char c < (32::nat)"
    | (plain) "\<not> (c = CHR 0x22 \<or> c = CHR 0x5C \<or> c = CHR 0x08 \<or> c = CHR 0x0C \<or> c = CHR 0x0A \<or> c = CHR 0x0D \<or> c = CHR 0x09)" "\<not> of_char c < (32::nat)"
    by blast
  then show ?thesis
  proof cases
    case short
    then show ?thesis
      by (auto simp: esc_char_def unescape_def split: option.splits)
  next
    case ctl
    let ?n = "of_char c :: nat"
    have h: "hex4 [CHR ''0'', CHR ''0'', hex_digit (?n div 16), hex_digit (?n mod 16)] = Some ?n"
      using ctl(2) by (simp add: hex4_def hex_val_zero hex_val_hex_digit)
    have u: "unescape (CHR ''u'' # CHR ''0'' # CHR ''0'' # hex_digit (?n div 16) # hex_digit (?n mod 16) # t) = Some ([c], 5)"
      using ctl(2) h by (simp add: unescape_def utf8_def)
    show ?thesis using ctl u
      by (simp add: esc_char_def split: option.splits)
  next
    case plain
    then show ?thesis by (simp add: esc_char_def split: option.splits)
  qed
qed

lemma parse_chars_quoted:
  "parse_chars (concat (map esc_char s) @ CHR 0x22 # r) = Some (s, r)"
  by (induction s) (simp_all add: parse_chars_esc_char)

lemma skip_ws_newline [simp]: "skip_ws (newline n @ t) = skip_ws t"
  by (simp add: skip_ws_def newline_def is_ws_def dropWhile_append)

lemma skip_ws_space [simp]: "skip_ws (CHR '' '' # t) = skip_ws t"
  by (simp add: skip_ws_def is_ws_def)

lemma skip_ws_starts: "starts_value t \<Longrightarrow> skip_ws t = t"
  by (cases t) (auto simp: starts_value_def skip_ws_def)

lemma skip_ws_lit [simp]:
  "skip_ws (CHR '','' # t) = CHR '','' # t" "skip_ws (CHR '']'' # t) = CHR '']'' # t"
  "skip_ws (CHR ''}'' # t) = CHR ''}'' # t" "skip_ws (CHR '':'' # t) = CHR '':'' # t"
  "skip_ws (CHR 0x22 # t) = CHR 0x22 # t"
  by (simp_all add: skip_ws_def is_ws_def)

lemma parse_value_ws: "skip_ws s = skip_ws t \<Longrightarrow> parse_value f s = parse_value f t"
  by (cases f) simp_all

lemma parse_elems_ws: "skip_ws s = skip_ws t \<Longrightarrow> parse_elems f s acc = parse_elems f t acc"
  by (cases f) (simp_all add: parse_value_ws[of s t])

lemma parse_members_ws: "skip_ws s = skip_ws t \<Longrightarrow> parse_members f s acc = parse_members f t acc"
  by (cases f) simp_all

lemma parse_nat_hd: "parse_nat (c # cs) = Some x \<Longrightarrow> is_digit c"
  by (auto simp: parse_nat_def is_digit_def split: if_splits)

lemma parse_number_hd:
  assumes "parse_number s = Some x"
  shows "\<exists>c cs. s = c # cs \<and> (c = CHR ''-'' \<or> is_digit c)"
proof (cases s)
  case Nil
  then show ?thesis using assms by (simp add: parse_number_def)
next
  case (Cons c cs)
  show ?thesis
  proof (cases "c = CHR ''-''")
    case True
    with Cons show ?thesis by simp
  next
    case False
    have "parse_unsigned (c # cs) \<noteq> None"
      using assms Cons False by (auto simp: parse_number_unsigned split: option.splits)
    then obtain y where "parse_nat (c # cs) = Some y"
      by (cases "parse_nat (c # cs)") (simp_all add: parse_unsigned_def)
    then have "is_digit c" by (rule parse_nat_hd)
    with Cons show ?thesis by simp
  qed
qed

lemma ends_number_Nil: "ends_number []"
  by (simp add: ends_number_def)

lemma number_hd:
  assumes "wf_json v" "v = JNum i \<or> v = JDec m d"
  shows "\<exists>c cs. stringify_at n v = c # cs \<and> (c = CHR ''-'' \<or> is_digit c)"
proof -
  have "\<exists>x. parse_number (stringify_at n v) = Some x"
    using assms parse_number_int_text[OF ends_number_Nil, of i]
      parse_number_dec_text[OF ends_number_Nil, of d m]
    by auto
  then show ?thesis using parse_number_hd by blast
qed

lemma is_digit_not:
  "is_digit c \<Longrightarrow> \<not> is_ws c \<and> c \<noteq> CHR '']'' \<and> c \<noteq> CHR ''}'' \<and> c \<noteq> CHR ''n'' \<and> c \<noteq> CHR ''t''
    \<and> c \<noteq> CHR ''f'' \<and> c \<noteq> CHR 0x22 \<and> c \<noteq> CHR ''['' \<and> c \<noteq> CHR ''{''"
  by (auto simp: is_digit_def is_ws_def)

lemma starts_value_stringify: "wf_json v \<Longrightarrow> starts_value (stringify_at n v @ r)"
proof (cases v)
  case (JNum i)
  assume "wf_json v"
  from number_hd[OF this, of i] JNum show ?thesis using is_digit_not
    by (auto simp: starts_value_def is_ws_def)
next
  case (JDec m d)
  assume "wf_json v"
  from number_hd[OF this, of _ m d] JDec show ?thesis using is_digit_not
    by (auto simp: starts_value_def is_ws_def)
qed (auto simp: starts_value_def is_ws_def quote_def)

lemma ends_number_simps [simp]:
  "ends_number []" "ends_number (CHR '','' # t)" "ends_number (newline n @ t)"
  by (simp_all add: ends_number_def newline_def is_digit_def)

lemma parse_value_number:
  assumes "parse_number (t @ r) = Some (v, r)"
  shows "parse_value (Suc f) (t @ r) = Parsed (v, r)"
proof -
  obtain c cs where c: "t @ r = c # cs" "c = CHR ''-'' \<or> is_digit c"
    using parse_number_hd[OF assms] by blast
  have sk: "skip_ws (c # cs) = c # cs"
    using c(2) is_digit_not[of c] by (auto simp: skip_ws_def is_ws_def)
  have n: "c \<noteq> CHR ''n''" "c \<noteq> CHR ''t''" "c \<noteq> CHR ''f''" "c \<noteq> CHR 0x22" "c \<noteq> CHR ''[''"
    "c \<noteq> CHR ''{''"
    using c(2) is_digit_not[of c] by auto
  have p: "parse_number (c # cs) = Some (v, r)" using assms c(1) by simp
  show ?thesis unfolding c(1) by (simp add: sk n p)
qed

lemma parse_value_str: "parse_value (Suc f) (quote s @ r) = Parsed (JStr s, r)"
  by (simp add: quote_def parse_chars_quoted)

lemma join_with_Cons: "xs \<noteq> [] \<Longrightarrow> join_with sep (x # xs) = x @ sep @ join_with sep xs"
  by (cases xs) simp_all

lemma obj_set_fresh: "k \<notin> fst ` set acc \<Longrightarrow> obj_set acc k v = acc @ [(k, v)]"
  by (induction acc) auto

lemma rtD:
  "rt v \<Longrightarrow> 2 * length (stringify_at n v @ r) < f \<Longrightarrow> ends_number r \<Longrightarrow>
   parse_value f (stringify_at n v @ r) = Parsed (v, r)"
  unfolding rt_def by blast

lemma elems_text_single:
  "elems_text n m [x] r = stringify_at n x @ newline m @ CHR '']'' # r"
  by (simp add: elems_text_def)

lemma elems_text_cons:
  "xs \<noteq> [] \<Longrightarrow> elems_text n m (x # xs) r = stringify_at n x @ CHR '','' # newline n @ elems_text n m xs r"
  by (simp add: elems_text_def join_with_Cons)

lemma rt_elems:
  assumes "xs \<noteq> []" "\<And>x. x \<in> set xs \<Longrightarrow> rt x"
  shows "2 * length (elems_text n m xs r) + 1 < f \<Longrightarrow>
         parse_elems f (elems_text n m xs r) acc = Parsed (JArr (acc @ xs), r)"
  using assms
proof (induction xs arbitrary: f acc rule: list_nonempty_induct)
  case (single x)
  then obtain f' where f': "f = Suc f'" by (cases f) auto
  have "rt x" using single by simp
  moreover have "2 * length (stringify_at n x @ newline m @ CHR '']'' # r) < f'"
    using single(1) f' by (simp add: elems_text_single)
  ultimately have "parse_value f' (stringify_at n x @ newline m @ CHR '']'' # r)
                   = Parsed (x, newline m @ CHR '']'' # r)"
    by (rule rtD) simp
  then show ?case unfolding elems_text_single f' by simp
next
  case (cons x xs)
  then obtain f' where f': "f = Suc f'" by (cases f) auto
  let ?rest = "elems_text n m xs r"
  have "rt x" using cons(4) by simp
  moreover have "2 * length (stringify_at n x @ CHR '','' # newline n @ ?rest) < f'"
    using cons(3) f' by (simp add: elems_text_cons[OF cons(1)])
  ultimately have pv: "parse_value f' (stringify_at n x @ CHR '','' # newline n @ ?rest)
                   = Parsed (x, CHR '','' # newline n @ ?rest)"
    by (rule rtD) simp
  have "2 * length ?rest + 1 < f'"
    using cons(3) f' by (simp add: elems_text_cons[OF cons(1)])
  then have "parse_elems f' ?rest (acc @ [x]) = Parsed (JArr ((acc @ [x]) @ xs), r)"
    using cons(2)[of f' "acc @ [x]"] cons(4) by simp
  then have pe: "parse_elems f' (newline n @ ?rest) (acc @ [x]) = Parsed (JArr ((acc @ [x]) @ xs), r)"
    using parse_elems_ws[of "newline n @ ?rest" ?rest] by simp
  show ?case unfolding elems_text_cons[OF cons(1)] f' using pv pe by simp
qed

lemma parse_members_step:
  assumes pv: "parse_value f (stringify_at n v @ rest) = Parsed (v, rest)"
  shows "parse_members (Suc f) (quote k @ '': '' @ stringify_at n v @ rest) acc =
         (case skip_ws rest of [] \<Rightarrow> Invalid
          | d # t \<Rightarrow> if d = CHR '','' then parse_members f t (obj_set acc k v)
                     else if d = CHR ''}'' then Parsed (JObj (obj_set acc k v), t)
                     else Invalid)"
proof -
  have "parse_value f (CHR '' '' # stringify_at n v @ rest) = Parsed (v, rest)"
    using pv parse_value_ws[of "CHR '' '' # stringify_at n v @ rest" "stringify_at n v @ rest" f] by simp
  then show ?thesis
    by (simp add: quote_def parse_chars_quoted)
qed

lemma member_text_fun:
  "member_text n = (\<lambda>kv. quote (fst kv) @ '': '' @ stringify_at n (snd kv))"
  by (rule ext) (simp add: member_text_def)

lemma members_text_single:
  "members_text n m [kv] r = quote (fst kv) @ '': '' @ stringify_at n (snd kv) @ newline m @ CHR ''}'' # r"
  by (simp add: members_text_def member_text_def)

lemma members_text_cons:
  "kvs \<noteq> [] \<Longrightarrow> members_text n m (kv # kvs) r
     = quote (fst kv) @ '': '' @ stringify_at n (snd kv) @ CHR '','' # newline n @ members_text n m kvs r"
  by (simp add: members_text_def member_text_def join_with_Cons)

lemma rt_members:
  assumes "kvs \<noteq> []" "\<And>kv. kv \<in> set kvs \<Longrightarrow> rt (snd kv)"
  shows "2 * length (members_text n m kvs r) + 1 < f \<Longrightarrow> distinct (map fst (acc @ kvs)) \<Longrightarrow>
         parse_members f (members_text n m kvs r) acc = Parsed (JObj (acc @ kvs), r)"
  using assms
proof (induction kvs arbitrary: f acc rule: list_nonempty_induct)
  case (single kv)
  then obtain f' where f': "f = Suc f'" by (cases f) auto
  have fresh: "obj_set acc (fst kv) (snd kv) = acc @ [kv]"
    using single(2) obj_set_fresh[of "fst kv" acc "snd kv"] by auto
  have "rt (snd kv)" using single by simp
  moreover have "2 * length (stringify_at n (snd kv) @ newline m @ CHR ''}'' # r) < f'"
    using single(1) f' by (simp add: members_text_single)
  ultimately have "parse_value f' (stringify_at n (snd kv) @ newline m @ CHR ''}'' # r)
                   = Parsed (snd kv, newline m @ CHR ''}'' # r)"
    by (rule rtD) simp
  from parse_members_step[OF this, of "fst kv" acc] show ?case
    unfolding members_text_single f' using fresh by simp
next
  case (cons kv kvs)
  then obtain f' where f': "f = Suc f'" by (cases f) auto
  let ?rest = "members_text n m kvs r"
  have fresh: "obj_set acc (fst kv) (snd kv) = acc @ [kv]"
    using cons(4) obj_set_fresh[of "fst kv" acc "snd kv"] by auto
  have d': "distinct (map fst ((acc @ [kv]) @ kvs))" using cons(4) by simp
  have "rt (snd kv)" using cons(5) by simp
  moreover have "2 * length (stringify_at n (snd kv) @ CHR '','' # newline n @ ?rest) < f'"
    using cons(3) f' by (simp add: members_text_cons[OF cons(1)])
  ultimately have pv: "parse_value f' (stringify_at n (snd kv) @ CHR '','' # newline n @ ?rest)
                   = Parsed (snd kv, CHR '','' # newline n @ ?rest)"
    by (rule rtD) simp
  have "2 * length ?rest + 1 < f'"
    using cons(3) f' by (simp add: members_text_cons[OF cons(1)])
  then have "parse_members f' ?rest (acc @ [kv]) = Parsed (JObj ((acc @ [kv]) @ kvs), r)"
    using cons(2)[of f' "acc @ [kv]"] d' cons(5) by simp
  then have pm: "parse_members f' (newline n @ ?rest) (acc @ [kv]) = Parsed (JObj ((acc @ [kv]) @ kvs), r)"
    using parse_members_ws[of "newline n @ ?rest" ?rest] by simp
  show ?case unfolding members_text_cons[OF cons(1)] f'
    using parse_members_step[OF pv, of "fst kv" acc] fresh pm by simp
qed

lemma rt_atom:
  assumes "\<And>f' n r. ends_number r \<Longrightarrow> parse_value (Suc f') (stringify_at n v @ r) = Parsed (v, r)"
  shows "rt v"
  unfolding rt_def
proof (intro allI impI)
  fix f n r assume "2 * length (stringify_at n v @ r) < f" "ends_number r"
  then obtain f' where "f = Suc f'" by (cases f) auto
  then show "parse_value f (stringify_at n v @ r) = Parsed (v, r)"
    using assms[OF \<open>ends_number r\<close>] by simp
qed

lemma rt_wf: "wf_json v \<Longrightarrow> rt v"
proof (induction v)
  case JNull
  show ?case by (rule rt_atom) (simp add: skip_ws_def is_ws_def)
next
  case (JBool b)
  show ?case by (rule rt_atom) (simp add: skip_ws_def is_ws_def)
next
  case (JNum i)
  show ?case
  proof (rule rt_atom)
    fix f' n r assume "ends_number r"
    then have "parse_number (int_text i @ r) = Some (JNum i, r)"
      using JNum by (simp add: parse_number_int_text)
    then show "parse_value (Suc f') (stringify_at n (JNum i) @ r) = Parsed (JNum i, r)"
      unfolding stringify_at.simps by (rule parse_value_number)
  qed
next
  case (JDec m d)
  show ?case
  proof (rule rt_atom)
    fix f' n r assume "ends_number r"
    then have "parse_number (dec_text m d @ r) = Some (JDec m d, r)"
      using JDec by (simp add: parse_number_dec_text)
    then show "parse_value (Suc f') (stringify_at n (JDec m d) @ r) = Parsed (JDec m d, r)"
      unfolding stringify_at.simps by (rule parse_value_number)
  qed
next
  case (JStr s)
  show ?case
  proof (rule rt_atom)
    fix f' n r
    show "parse_value (Suc f') (stringify_at n (JStr s) @ r) = Parsed (JStr s, r)"
      unfolding stringify_at.simps by (rule parse_value_str)
  qed
next
  case (JArr xs)
  show ?case
  proof (cases "xs = []")
    case True
    then show ?thesis by (intro rt_atom) (simp add: skip_ws_def is_ws_def)
  next
    case False
    have el: "\<And>x. x \<in> set xs \<Longrightarrow> rt x" using JArr by (simp add: list_all_iff)
    show ?thesis unfolding rt_def
    proof (intro allI impI)
      fix f n r assume b: "2 * length (stringify_at n (JArr xs) @ r) < f"
      then obtain f' where f': "f = Suc f'" by (cases f) auto
      let ?body = "elems_text (n + 2) n xs r"
      have tx: "stringify_at n (JArr xs) @ r = CHR ''['' # newline (n + 2) @ ?body"
        using False by (simp add: elems_text_def)
      obtain x xs' where xs: "xs = x # xs'" using False by (cases xs) auto
      have sv: "starts_value ?body"
        using starts_value_stringify[of x "n + 2"] JArr.prems xs
        by (cases xs') (auto simp: starts_value_def elems_text_def)
      then obtain d t where dt: "?body = d # t" "d \<noteq> CHR '']''"
        by (cases ?body) (auto simp: starts_value_def)
      have sk: "skip_ws (newline (n + 2) @ ?body) = ?body"
        using skip_ws_starts[OF sv] by simp
      have "2 * length ?body + 1 < f'" using b f' unfolding tx by simp
      from rt_elems[OF False el this, of "[]"]
      have "parse_elems f' ?body [] = Parsed (JArr xs, r)" by simp
      then show "parse_value f (stringify_at n (JArr xs) @ r) = Parsed (JArr xs, r)"
        unfolding tx f' using sk dt by (simp add: skip_ws_def is_ws_def)
    qed
  qed
next
  case (JObj kvs)
  show ?case
  proof (cases "kvs = []")
    case True
    then show ?thesis by (intro rt_atom) (simp add: skip_ws_def is_ws_def)
  next
    case False
    have el: "\<And>kv. kv \<in> set kvs \<Longrightarrow> rt (snd kv)"
    proof -
      fix kv assume kv: "kv \<in> set kvs"
      then have "wf_json (snd kv)" using JObj(2) by (simp add: list_all_iff)
      moreover have "snd kv \<in> Basic_BNFs.snds kv" by (cases kv) simp
      ultimately show "rt (snd kv)" using JObj(1) kv by blast
    qed
    have dk: "distinct (map fst ([] @ kvs))" using JObj(2) by simp
    show ?thesis unfolding rt_def
    proof (intro allI impI)
      fix f n r assume b: "2 * length (stringify_at n (JObj kvs) @ r) < f"
      then obtain f' where f': "f = Suc f'" by (cases f) auto
      let ?body = "members_text (n + 2) n kvs r"
      have tx: "stringify_at n (JObj kvs) @ r = CHR ''{'' # newline (n + 2) @ ?body"
        using False by (simp add: members_text_def member_text_fun)
      obtain x xs' where xs: "kvs = x # xs'" using False by (cases kvs) auto
      have "\<exists>t. ?body = CHR 0x22 # t"
        using xs by (cases xs') (auto simp: quote_def members_text_def member_text_def)
      then obtain t where dt: "?body = CHR 0x22 # t" by blast
      have sk: "skip_ws (newline (n + 2) @ ?body) = ?body"
        using dt by simp
      have "2 * length ?body + 1 < f'" using b f' unfolding tx by simp
      from rt_members[OF False el this dk]
      have "parse_members f' ?body [] = Parsed (JObj kvs, r)" by simp
      then show "parse_value f (stringify_at n (JObj kvs) @ r) = Parsed (JObj kvs, r)"
        unfolding tx f' using sk dt by (simp add: skip_ws_def is_ws_def)
    qed
  qed
qed

theorem JSON_parse_stringify: "wf_json v \<Longrightarrow> JSON_parse (JSON_stringify v) = Some v"
proof -
  assume "wf_json v"
  then have "rt v" by (rule rt_wf)
  from rtD[OF this, of 0 "[]" "2 * length (stringify_at 0 v) + 1"]
  show ?thesis by (simp add: JSON_parse_def JSON_stringify_def skip_ws_def)
qed

lemma skip_ws_length: "length (skip_ws s) \<le> length s"
  by (simp add: skip_ws_def length_dropWhile_le)

lemma skip_ws_Cons_length: "skip_ws s = c # cs \<Longrightarrow> length cs < length s"
  using skip_ws_length[of s] by simp

lemma parse_digits_length: "length (snd (parse_digits acc s)) \<le> length s"
  by (induction s arbitrary: acc) (auto intro: le_SucI)

lemma parse_nat_length: "parse_nat s = Some (n, r) \<Longrightarrow> length r < length s"
proof (cases s)
  case Nil
  assume "parse_nat s = Some (n, r)"
  with Nil show ?thesis by (simp add: parse_nat_def)
next
  case (Cons c cs)
  assume a: "parse_nat s = Some (n, r)"
  show ?thesis
  proof (cases "c = CHR ''0''")
    case True
    with a Cons show ?thesis by (simp add: parse_nat_def)
  next
    case False
    with a Cons have d: "is_digit c" and p: "parse_digits (digit_val c) cs = (n, r)"
      by (auto simp: parse_nat_def split: if_splits)
    from parse_digits_length[of "digit_val c" cs] p have "length r \<le> length cs" by simp
    with Cons show ?thesis by simp
  qed
qed

lemma parse_fraction_length: "parse_fraction n s = Some (m, fd, r) \<Longrightarrow> length r \<le> length s"
proof (cases s)
  case Nil
  assume "parse_fraction n s = Some (m, fd, r)"
  with Nil show ?thesis by (simp add: parse_fraction_def)
next
  case (Cons c cs)
  assume a: "parse_fraction n s = Some (m, fd, r)"
  show ?thesis
  proof (cases "c = CHR ''.''")
    case True
    with a Cons have "r = snd (parse_digits n cs)"
      by (auto simp: parse_fraction_def split: if_splits)
    then show ?thesis using parse_digits_length[of n cs] Cons by simp
  next
    case False
    with a Cons show ?thesis by (simp add: parse_fraction_def)
  qed
qed

lemma parse_exponent_length: "parse_exponent s = Some (ex, r) \<Longrightarrow> length r \<le> length s"
proof (cases s)
  case Nil
  assume "parse_exponent s = Some (ex, r)"
  with Nil show ?thesis by (simp add: parse_exponent_def)
next
  case (Cons c cs)
  assume a: "parse_exponent s = Some (ex, r)"
  show ?thesis
  proof (cases "c \<noteq> CHR ''e'' \<and> c \<noteq> CHR ''E''")
    case True
    with a Cons show ?thesis by (simp add: parse_exponent_def)
  next
    case False
    with a Cons have "r = snd (parse_digits 0 cs) \<or> r = snd (parse_digits 0 (tl cs))"
      by (auto simp: parse_exponent_def Let_def split: if_splits)
    moreover have "length (tl cs) \<le> length cs" by simp
    ultimately show ?thesis
      using parse_digits_length[of 0 cs] parse_digits_length[of 0 "tl cs"] Cons by auto
  qed
qed

lemma parse_unsigned_length: "parse_unsigned s = Some (m, sc, r) \<Longrightarrow> length r < length s"
proof -
  assume a: "parse_unsigned s = Some (m, sc, r)"
  then obtain n r0 where p0: "parse_nat s = Some (n, r0)"
    by (cases "parse_nat s") (auto simp: parse_unsigned_def)
  with a obtain m' fd r1 where p1: "parse_fraction n r0 = Some (m', fd, r1)"
    by (cases "parse_fraction n r0") (auto simp: parse_unsigned_def)
  with a p0 obtain ex where p2: "parse_exponent r1 = Some (ex, r)"
    by (cases "parse_exponent r1") (auto simp: parse_unsigned_def)
  from parse_nat_length[OF p0] parse_fraction_length[OF p1] parse_exponent_length[OF p2]
  show ?thesis by simp
qed

lemma parse_number_length: "parse_number s = Some (v, r) \<Longrightarrow> length r < length s"
proof (cases s)
  case Nil
  assume "parse_number s = Some (v, r)"
  with Nil show ?thesis by (simp add: parse_number_def)
next
  case (Cons c cs)
  assume "parse_number s = Some (v, r)"
  with Cons obtain m sc where "parse_unsigned (if c = CHR ''-'' then cs else c # cs) = Some (m, sc, r)"
    by (auto simp: parse_number_unsigned split: option.splits)
  from parse_unsigned_length[OF this] Cons show ?thesis by (auto split: if_splits)
qed

lemma parse_chars_length: "parse_chars s = Some (t, r) \<Longrightarrow> length r < length s"
proof (induction s arbitrary: t r rule: parse_chars.induct)
  case 1
  then show ?case by simp
next
  case (2 c cs)
  show ?case
  proof (cases "c = CHR 0x22")
    case True
    with 2(3) show ?thesis by simp
  next
    case nq: False
    show ?thesis
    proof (cases "c = CHR 0x5C")
      case True
      with nq 2(3) obtain bytes k s' where u: "unescape cs = Some (bytes, k)"
        and p: "parse_chars (drop k cs) = Some (s', r)"
        by (auto split: option.splits)
      from 2(1)[OF nq True u refl p] have "length r < length (drop k cs)" .
      then show ?thesis by simp
    next
      case False
      with nq 2(3) obtain s' where p: "parse_chars cs = Some (s', r)" and "\<not> of_char c < (32::nat)"
        by (auto split: option.splits if_splits)
      from 2(2)[OF nq False this(2) p] show ?thesis by simp
    qed
  qed
qed

lemma parse_shrinks:
  "(\<forall>v r. parse_value f s = Parsed (v, r) \<longrightarrow> length r < length s)"
  "(\<forall>v r. parse_elems f s acc = Parsed (v, r) \<longrightarrow> length r < length s)"
  "(\<forall>v r. parse_members f s acc' = Parsed (v, r) \<longrightarrow> length r < length s)"
proof (induction f s and f s acc and f s acc' rule: parse_value_parse_elems_parse_members.induct)
  case (1 s)
  then show ?case by simp
next
  case (2 f s)
  show ?case
  proof (intro allI impI)
    fix v r assume a: "parse_value (Suc f) s = Parsed (v, r)"
    then obtain c cs where sk: "skip_ws s = c # cs"
      by (cases "skip_ws s") auto
    have l: "length cs < length s" using skip_ws_Cons_length[OF sk] .
    consider (lit) "c = CHR ''n'' \<or> c = CHR ''t'' \<or> c = CHR ''f''"
      | (str) "c = CHR 0x22"
      | (arr) "c = CHR ''[''"
      | (obj) "c = CHR ''{''"
      | (num) "c \<noteq> CHR ''n''" "c \<noteq> CHR ''t''" "c \<noteq> CHR ''f''" "c \<noteq> CHR 0x22" "c \<noteq> CHR ''[''" "c \<noteq> CHR ''{''"
      by blast
    then show "length r < length s"
    proof cases
      case lit
      with a sk l show ?thesis by (auto split: if_splits)
    next
      case str
      with a sk obtain t where "parse_chars cs = Some (t, r)" by (auto split: option.splits)
      from parse_chars_length[OF this] l show ?thesis by simp
    next
      case arr
      with a sk obtain d t where sk2: "skip_ws cs = d # t" by (cases "skip_ws cs") auto
      have l2: "length t < length cs" using skip_ws_Cons_length[OF sk2] .
      show ?thesis
      proof (cases "d = CHR '']''")
        case True
        with a sk sk2 arr l l2 show ?thesis by auto
      next
        case False
        with a sk sk2 arr have "parse_elems f (d # t) [] = Parsed (v, r)" by simp
        moreover have "\<forall>v r. parse_elems f (d # t) [] = Parsed (v, r) \<longrightarrow> length r < length (d # t)"
          using 2(1)[OF sk _ _ _ _ _ sk2 False] arr by simp
        ultimately show ?thesis using l l2 by auto
      qed
    next
      case obj
      with a sk obtain d t where sk2: "skip_ws cs = d # t" by (cases "skip_ws cs") auto
      have l2: "length t < length cs" using skip_ws_Cons_length[OF sk2] .
      show ?thesis
      proof (cases "d = CHR ''}''")
        case True
        with a sk sk2 obj l l2 show ?thesis by auto
      next
        case False
        with a sk sk2 obj have "parse_members f (d # t) [] = Parsed (v, r)" by simp
        moreover have "\<forall>v r. parse_members f (d # t) [] = Parsed (v, r) \<longrightarrow> length r < length (d # t)"
          using 2(2)[OF sk _ _ _ _ _ _ sk2 False] obj by simp
        ultimately show ?thesis using l l2 by auto
      qed
    next
      case num
      with a sk obtain i where "parse_number (c # cs) = Some (i, r)" by (auto split: option.splits)
      from parse_number_length[OF this] l show ?thesis by simp
    qed
  qed
next
  case (3 s acc)
  then show ?case by simp
next
  case (4 f s acc)
  show ?case
  proof (intro allI impI)
    fix v r assume a: "parse_elems (Suc f) s acc = Parsed (v, r)"
    then obtain x r1 where pv: "parse_value f s = Parsed (x, r1)"
      by (cases "parse_value f s") (auto split: prod.splits)
    have l1: "length r1 < length s" using 4(1) pv by simp
    from a pv obtain c cs where sk: "skip_ws r1 = c # cs" by (cases "skip_ws r1") auto
    have l2: "length cs < length r1" using skip_ws_Cons_length[OF sk] .
    show "length r < length s"
    proof (cases "c = CHR '',''")
      case True
      with a pv sk have "parse_elems f cs (acc @ [x]) = Parsed (v, r)" by simp
      moreover have "\<forall>v r. parse_elems f cs (acc @ [x]) = Parsed (v, r) \<longrightarrow> length r < length cs"
        using 4(2)[OF pv refl sk True] .
      ultimately show ?thesis using l1 l2 by auto
    next
      case False
      with a pv sk l1 l2 show ?thesis by (auto split: if_splits)
    qed
  qed
next
  case (5 s acc)
  then show ?case by simp
next
  case (6 f s acc)
  show ?case
  proof (intro allI impI)
    fix v r assume a: "parse_members (Suc f) s acc = Parsed (v, r)"
    then obtain q cs where sk: "skip_ws s = q # cs" by (cases "skip_ws s") auto
    with a have q: "\<not> q \<noteq> CHR 0x22" by (auto split: if_splits)
    from a sk q obtain k r0 where pc: "parse_chars cs = Some (k, r0)"
      by (cases "parse_chars cs") auto
    from a sk q pc obtain c r' where sk2: "skip_ws r0 = c # r'" by (cases "skip_ws r0") auto
    with a sk q pc have c: "\<not> c \<noteq> CHR '':''" by (auto split: if_splits)
    from a sk q pc sk2 c obtain x r'' where pv: "parse_value f r' = Parsed (x, r'')"
      by (cases "parse_value f r'") (auto split: prod.splits)
    from a sk q pc sk2 c pv obtain d t where sk3: "skip_ws r'' = d # t" by (cases "skip_ws r''") auto
    have l: "length r'' < length s"
      using skip_ws_Cons_length[OF sk] parse_chars_length[OF pc] skip_ws_Cons_length[OF sk2]
        6(1)[OF sk q pc refl sk2 c] pv by auto
    have l3: "length t < length r''" using skip_ws_Cons_length[OF sk3] .
    show "length r < length s"
    proof (cases "d = CHR '',''")
      case True
      with a sk q pc sk2 c pv sk3 have "parse_members f t (obj_set acc k x) = Parsed (v, r)" by simp
      moreover have "\<forall>v r. parse_members f t (obj_set acc k x) = Parsed (v, r) \<longrightarrow> length r < length t"
        using 6(2)[OF sk q pc refl sk2 c pv refl sk3 True] .
      ultimately show ?thesis using l l3 by auto
    next
      case False
      with a sk q pc sk2 c pv sk3 l l3 show ?thesis by (auto split: if_splits)
    qed
  qed
qed

lemma parse_fuel:
  "2 * length s < f \<longrightarrow> parse_value f s \<noteq> OutOfFuel"
  "2 * length s + 1 < f \<longrightarrow> parse_elems f s acc \<noteq> OutOfFuel"
  "2 * length s + 1 < f \<longrightarrow> parse_members f s acc' \<noteq> OutOfFuel"
proof (induction f s and f s acc and f s acc' rule: parse_value_parse_elems_parse_members.induct)
  case (1 s)
  then show ?case by simp
next
  case (2 f s)
  show ?case
  proof
    assume b: "2 * length s < Suc f"
    show "parse_value (Suc f) s \<noteq> OutOfFuel"
    proof (cases "skip_ws s")
      case Nil
      then show ?thesis by simp
    next
      case (Cons c cs)
      have l: "length cs < length s" using skip_ws_Cons_length[OF Cons] .
      consider (arr) "c = CHR ''[''" | (obj) "c = CHR ''{''"
        | (other) "c \<noteq> CHR ''[''" "c \<noteq> CHR ''{''"
        by blast
      then show ?thesis
      proof cases
        case arr
        show ?thesis
        proof (cases "skip_ws cs")
          case Nil
          with Cons arr show ?thesis by simp
        next
          case sk2: (Cons d t)
          have l2: "length t < length cs" using skip_ws_Cons_length[OF sk2] .
          show ?thesis
          proof (cases "d = CHR '']''")
            case True
            with Cons sk2 arr show ?thesis by simp
          next
            case False
            have "2 * length (d # t) + 1 < f" using b l l2 by simp
            then have "parse_elems f (d # t) [] \<noteq> OutOfFuel"
              using 2(1)[OF Cons _ _ _ _ _ sk2 False] arr by simp
            with Cons sk2 arr False show ?thesis by simp
          qed
        qed
      next
        case obj
        show ?thesis
        proof (cases "skip_ws cs")
          case Nil
          with Cons obj show ?thesis by simp
        next
          case sk2: (Cons d t)
          have l2: "length t < length cs" using skip_ws_Cons_length[OF sk2] .
          show ?thesis
          proof (cases "d = CHR ''}''")
            case True
            with Cons sk2 obj show ?thesis by simp
          next
            case False
            have "2 * length (d # t) + 1 < f" using b l l2 by simp
            then have "parse_members f (d # t) [] \<noteq> OutOfFuel"
              using 2(2)[OF Cons _ _ _ _ _ _ sk2 False] obj by simp
            with Cons sk2 obj False show ?thesis by simp
          qed
        qed
      next
        case other
        with Cons show ?thesis by (auto split: option.splits)
      qed
    qed
  qed
next
  case (3 s acc)
  then show ?case by simp
next
  case (4 f s acc)
  show ?case
  proof
    assume b: "2 * length s + 1 < Suc f"
    then have pv: "parse_value f s \<noteq> OutOfFuel" using 4(1) by simp
    show "parse_elems (Suc f) s acc \<noteq> OutOfFuel"
    proof (cases "parse_value f s")
      case OutOfFuel
      with pv show ?thesis by simp
    next
      case Invalid
      then show ?thesis by simp
    next
      case (Parsed p)
      obtain x r1 where p: "p = (x, r1)" by (cases p)
      have l1: "length r1 < length s" using parse_shrinks(1)[of f s] Parsed p by simp
      show ?thesis
      proof (cases "skip_ws r1")
        case Nil
        with Parsed p show ?thesis by simp
      next
        case (Cons c cs)
        have l2: "length cs < length r1" using skip_ws_Cons_length[OF Cons] .
        show ?thesis
        proof (cases "c = CHR '',''")
          case True
          have "2 * length cs + 1 < f" using b l1 l2 by simp
          then have "parse_elems f cs (acc @ [x]) \<noteq> OutOfFuel"
            using 4(2)[OF Parsed[unfolded p] refl Cons True] by simp
          with Parsed p Cons True show ?thesis by simp
        next
          case False
          with Parsed p Cons show ?thesis by simp
        qed
      qed
    qed
  qed
next
  case (5 s acc)
  then show ?case by simp
next
  case (6 f s acc)
  show ?case
  proof
    assume b: "2 * length s + 1 < Suc f"
    show "parse_members (Suc f) s acc \<noteq> OutOfFuel"
    proof (cases "skip_ws s")
      case Nil
      then show ?thesis by simp
    next
      case sk: (Cons q cs)
      show ?thesis
      proof (cases "q \<noteq> CHR 0x22")
        case True
        with sk show ?thesis by simp
      next
        case q: False
        show ?thesis
        proof (cases "parse_chars cs")
          case None
          with sk q show ?thesis by simp
        next
          case (Some kr)
          obtain k r0 where kr: "kr = (k, r0)" by (cases kr)
          note pc = Some[unfolded kr]
          show ?thesis
          proof (cases "skip_ws r0")
            case Nil
            with sk q pc show ?thesis by simp
          next
            case sk2: (Cons c r')
            show ?thesis
            proof (cases "c \<noteq> CHR '':''")
              case True
              with sk q pc sk2 show ?thesis by simp
            next
              case c: False
              have l: "length r' < length s"
                using skip_ws_Cons_length[OF sk] parse_chars_length[OF pc] skip_ws_Cons_length[OF sk2]
                by simp
              then have "2 * length r' < f" using b by simp
              then have pv: "parse_value f r' \<noteq> OutOfFuel"
                using 6(1)[OF sk q pc refl sk2 c] by simp
              show ?thesis
              proof (cases "parse_value f r'")
                case OutOfFuel
                with pv show ?thesis by simp
              next
                case Invalid
                with sk q pc sk2 c show ?thesis by simp
              next
                case (Parsed p)
                obtain x r'' where p: "p = (x, r'')" by (cases p)
                note pvp = Parsed[unfolded p]
                have l2: "length r'' < length r'" using parse_shrinks(1)[of f r'] pvp by simp
                show ?thesis
                proof (cases "skip_ws r''")
                  case Nil
                  with sk q pc sk2 c pvp show ?thesis by simp
                next
                  case sk3: (Cons d t)
                  have l3: "length t < length r''" using skip_ws_Cons_length[OF sk3] .
                  show ?thesis
                  proof (cases "d = CHR '',''")
                    case True
                    have "2 * length t + 1 < f" using b l l2 l3 by simp
                    then have "parse_members f t (obj_set acc k x) \<noteq> OutOfFuel"
                      using 6(2)[OF sk q pc refl sk2 c pvp refl sk3 True] by simp
                    with sk q pc sk2 c pvp sk3 True show ?thesis by simp
                  next
                    case False
                    with sk q pc sk2 c pvp sk3 show ?thesis by simp
                  qed
                qed
              qed
            qed
          qed
        qed
      qed
    qed
  qed
qed

lemma parse_value_fuel: "parse_value (2 * length s + 1) s \<noteq> OutOfFuel"
  using parse_fuel(1)[of s "2 * length s + 1"] by simp

lemma b64_val_char: "i < 64 \<Longrightarrow> b64_val (b64_char i) = Some i"
  by (auto simp: b64_val_def b64_char_def Let_def char_of_eq_lit)

lemma b64_char_not_pad: "i < 64 \<Longrightarrow> b64_char i \<noteq> CHR ''=''"
  by (auto simp: b64_char_def char_of_eq_lit)

lemma div_mod_pack:
  fixes a b k :: nat
  assumes "b < k"
  shows "(a * k + b) div k = a" "(a * k + b) mod k = b"
  using assms by simp_all

lemma byte_bounds:
  fixes x :: nat
  assumes "x < 256"
  shows "x div 4 < 64" "x div 16 < 16" "x div 64 < 4" "x mod 64 < 64" "x mod 4 * 16 < 64" "x mod 16 * 4 < 64"
  using assms by simp_all

lemma sextet_bounds:
  fixes x y :: nat
  assumes "y < 256"
  shows "x mod 4 * 16 + y div 16 < 64" "x mod 16 * 4 + y div 64 < 64"
proof -
  have "x mod 4 \<le> 3" "x mod 16 \<le> 15" by simp_all
  moreover have "y div 16 < 16" "y div 64 < 4" using assms by simp_all
  ultimately show "x mod 4 * 16 + y div 16 < 64" "x mod 16 * 4 + y div 64 < 64" by linarith+
qed

lemma byte_join:
  fixes x y z :: nat
  assumes "y < 256" "z < 256"
  shows "x div 4 * 4 + (x mod 4 * 16 + y div 16) div 16 = x"
    "(x mod 4 * 16 + y div 16) mod 16 * 16 + (y mod 16 * 4 + z div 64) div 4 = y"
    "(y mod 16 * 4 + z div 64) mod 4 * 64 + z mod 64 = z"
    "x div 4 * 4 + (x mod 4 * 16) div 16 = x"
    "(x mod 4 * 16 + y div 16) mod 16 * 16 + (y mod 16 * 4) div 4 = y"
proof -
  have y16: "y div 16 < 16" and z64: "z div 64 < 4" using assms by simp_all
  have a: "(x mod 4 * 16 + y div 16) div 16 = x mod 4" "(x mod 4 * 16 + y div 16) mod 16 = y div 16"
    using div_mod_pack[OF y16, of "x mod 4"] by simp_all
  have b: "(y mod 16 * 4 + z div 64) div 4 = y mod 16" "(y mod 16 * 4 + z div 64) mod 4 = z div 64"
    using div_mod_pack[OF z64, of "y mod 16"] by simp_all
  show "x div 4 * 4 + (x mod 4 * 16 + y div 16) div 16 = x" unfolding a by simp
  show "(x mod 4 * 16 + y div 16) mod 16 * 16 + (y mod 16 * 4 + z div 64) div 4 = y"
    unfolding a b by simp
  show "(y mod 16 * 4 + z div 64) mod 4 * 64 + z mod 64 = z" unfolding b by simp
  show "x div 4 * 4 + (x mod 4 * 16) div 16 = x" by simp
  show "(x mod 4 * 16 + y div 16) mod 16 * 16 + (y mod 16 * 4) div 4 = y" unfolding a by simp
qed

lemma b64_groups_4:
  "b64_groups (w # x # y # z # r) =
     char_of (w * 4 + x div 16) # char_of (x mod 16 * 16 + y div 4) # char_of (y mod 4 * 64 + z)
     # b64_groups r"
  by simp

lemma b64_unpad_Cons:
  "i < 64 \<Longrightarrow>
   List.map_filter b64_val (takeWhile (\<lambda>c. c \<noteq> CHR ''='') (b64_char i # t))
   = i # List.map_filter b64_val (takeWhile (\<lambda>c. c \<noteq> CHR ''='') t)"
  by (simp add: List.map_filter_simps b64_val_char b64_char_not_pad)

lemma b64_unpad_pad:
  "List.map_filter b64_val (takeWhile (\<lambda>c. c \<noteq> CHR ''='') (CHR ''='' # t)) = []"
  by (simp add: List.map_filter_simps)

lemma b64_unpad_Nil:
  "List.map_filter b64_val (takeWhile (\<lambda>c. c \<noteq> CHR ''='') []) = []"
  by (simp add: List.map_filter_simps)

lemma b64_roundtrip: "b64_decode (b64_encode s) = s"
proof (induction s rule: b64_encode.induct)
  case 1
  show ?case by (simp add: b64_decode_def b64_unpad_Nil)
next
  case (2 a)
  let ?x = "of_char a :: nat"
  have x: "?x < 256" by simp
  note b1 = byte_bounds(1)[OF x] and b2 = byte_bounds(5)[OF x]
  have e: "b64_encode [a] = [b64_char (?x div 4), b64_char (?x mod 4 * 16), CHR ''='', CHR ''='']"
    by (simp add: Let_def)
  have "b64_decode (b64_encode [a]) = b64_groups [?x div 4, ?x mod 4 * 16]"
    unfolding e b64_decode_def b64_unpad_Cons[OF b1] b64_unpad_Cons[OF b2] b64_unpad_pad
    by (rule refl)
  also have "\<dots> = [char_of (?x div 4 * 4 + (?x mod 4 * 16) div 16)]" by simp
  also have "\<dots> = [a]" unfolding byte_join(4)[OF x x] by simp
  finally show ?case .
next
  case (3 a b)
  let ?x = "of_char a :: nat" and ?y = "of_char b :: nat"
  have x: "?x < 256" and y: "?y < 256" by simp_all
  note b1 = byte_bounds(1)[OF x] and b2 = sextet_bounds(1)[OF y, of ?x] and b3 = byte_bounds(6)[OF y]
  have e: "b64_encode [a, b] = [b64_char (?x div 4), b64_char (?x mod 4 * 16 + ?y div 16),
                                b64_char (?y mod 16 * 4), CHR ''='']"
    by (simp add: Let_def)
  have "b64_decode (b64_encode [a, b])
        = b64_groups [?x div 4, ?x mod 4 * 16 + ?y div 16, ?y mod 16 * 4]"
    unfolding e b64_decode_def b64_unpad_Cons[OF b1] b64_unpad_Cons[OF b2] b64_unpad_Cons[OF b3]
      b64_unpad_pad
    by (rule refl)
  also have "\<dots> = [char_of (?x div 4 * 4 + (?x mod 4 * 16 + ?y div 16) div 16),
                     char_of ((?x mod 4 * 16 + ?y div 16) mod 16 * 16 + (?y mod 16 * 4) div 4)]"
    by simp
  also have "\<dots> = [a, b]" unfolding byte_join(1,5)[OF y y] by simp
  finally show ?case .
next
  case (4 a b c r)
  let ?x = "of_char a :: nat" and ?y = "of_char b :: nat" and ?z = "of_char c :: nat"
  have x: "?x < 256" and y: "?y < 256" and z: "?z < 256" by simp_all
  note b1 = byte_bounds(1)[OF x] and b2 = sextet_bounds(1)[OF y, of ?x]
    and b3 = sextet_bounds(2)[OF z, of ?y] and b4 = byte_bounds(4)[OF z]
  have ih: "b64_groups (List.map_filter b64_val (takeWhile (\<lambda>c. c \<noteq> CHR ''='') (b64_encode r))) = r"
    using 4 by (simp add: b64_decode_def)
  have e: "b64_encode (a # b # c # r) =
             b64_char (?x div 4) # b64_char (?x mod 4 * 16 + ?y div 16)
             # b64_char (?y mod 16 * 4 + ?z div 64) # b64_char (?z mod 64) # b64_encode r"
    by (simp add: Let_def)
  have "b64_decode (b64_encode (a # b # c # r))
        = b64_groups (?x div 4 # (?x mod 4 * 16 + ?y div 16) # (?y mod 16 * 4 + ?z div 64) # ?z mod 64
            # List.map_filter b64_val (takeWhile (\<lambda>c. c \<noteq> CHR ''='') (b64_encode r)))"
    unfolding e b64_decode_def b64_unpad_Cons[OF b1] b64_unpad_Cons[OF b2] b64_unpad_Cons[OF b3]
      b64_unpad_Cons[OF b4]
    by (rule refl)
  also have "\<dots> = char_of (?x div 4 * 4 + (?x mod 4 * 16 + ?y div 16) div 16)
      # char_of ((?x mod 4 * 16 + ?y div 16) mod 16 * 16 + (?y mod 16 * 4 + ?z div 64) div 4)
      # char_of ((?y mod 16 * 4 + ?z div 64) mod 4 * 64 + ?z mod 64) # r"
    unfolding b64_groups_4 ih by (rule refl)
  also have "\<dots> = a # b # c # r" unfolding byte_join(1,2,3)[OF y z] by simp
  finally show ?case .
qed

lemma b64_char_nl0: "b64_char i \<noteq> CHR 0x0A"
  by (auto simp: b64_char_def char_of_eq_lit)

lemma b64_char_nl: "b64_char i \<noteq> CHR 0x0A" "CHR 0x0A \<noteq> b64_char i"
  using b64_char_nl0[of i] by auto

lemma b64_encode_no_nl: "CHR 0x0A \<notin> set (b64_encode s)"
  by (induction s rule: b64_encode.induct) (simp_all add: Let_def b64_char_nl)

lemma split_char_not_Nil: "split_char d s \<noteq> []"
  by (induction s) (auto split: list.splits)

lemma join_split_filter: "join_with [] (split_char d s) = filter (\<lambda>c. c \<noteq> d) s"
proof (induction s)
  case Nil
  show ?case by simp
next
  case (Cons c cs)
  obtain x xs where x: "split_char d cs = x # xs"
    using split_char_not_Nil[of d cs] by (cases "split_char d cs") auto
  have j: "\<And>y ys. join_with [] (y # ys) = y @ join_with [] ys"
  proof -
    fix y :: string and ys show "join_with [] (y # ys) = y @ join_with [] ys" by (cases ys) simp_all
  qed
  show ?case using Cons x by (auto simp: j)
qed

lemma filter_wrap_lines: "filter (\<lambda>c. c \<noteq> CHR 0x0A) (wrap_lines k s) = filter (\<lambda>c. c \<noteq> CHR 0x0A) s"
  by (induction s arbitrary: k) auto

lemma unwrap_b64:
  "join_with [] (split_char (CHR 0x0A) (wrap_lines 0 (b64_encode s))) = b64_encode s"
  using b64_encode_no_nl[of s]
  by (auto simp: join_split_filter filter_wrap_lines filter_id_conv)

lemma io_bind_Return: "m w = (Return x, w') \<Longrightarrow> io_bind m f w = f x w'"
  by (simp add: io_bind_def)

lemma io_bind_Throw: "m w = (Throw e, w') \<Longrightarrow> io_bind m f w = (Throw e, w')"
  by (simp add: io_bind_def)

lemma upper_hex_not_q: "d < 16 \<Longrightarrow> upper_hex d \<noteq> CHR ''?''"
  by (auto simp: upper_hex_def char_of_eq_lit)

lemma uri_byte_no_q: "CHR ''?'' \<notin> set (uri_byte c)"
proof (cases "uri_unreserved c")
  case True
  then have "c \<noteq> CHR ''?''" by (auto simp: uri_unreserved_def)
  with True show ?thesis by (simp add: uri_byte_def)
next
  case False
  have "(of_char c :: nat) div 16 < 16" by (rule byte_bounds(2)[OF nat_of_char_less_256])
  moreover have "(of_char c :: nat) mod 16 < 16" by simp
  ultimately have h: "upper_hex (of_char c div 16) \<noteq> CHR ''?''" "upper_hex (of_char c mod 16) \<noteq> CHR ''?''"
    by (simp_all add: upper_hex_not_q)
  show ?thesis using False h h[symmetric] by (simp add: uri_byte_def)
qed

lemma encodeURIComponent_no_q: "CHR ''?'' \<notin> set (encodeURIComponent s)"
  using uri_byte_no_q by (auto simp: encodeURIComponent_def)

lemma join_with_Cons2: "xs \<noteq> [] \<Longrightarrow> join_with sep (x # xs) = x @ sep @ join_with sep xs"
  by (cases xs) simp_all

lemma encodeGitHubPath_bytes: "encodeGitHubPath p = concat (map path_byte p)"
proof (induction p)
  case Nil
  show ?case by (simp add: encodeGitHubPath_def encodeURIComponent_def)
next
  case (Cons c cs)
  obtain x xs where x: "split_char (CHR ''/'') cs = x # xs"
    using split_char_not_Nil[of "CHR ''/''" cs] by (cases "split_char (CHR ''/'') cs") auto
  have ih: "join_with ''/'' (encodeURIComponent x # map encodeURIComponent xs) = concat (map path_byte cs)"
    using Cons x by (simp add: encodeGitHubPath_def)
  show ?case
  proof (cases "c = CHR ''/''")
    case True
    then have pb: "path_byte c = ''/''" by (simp add: path_byte_def)
    have "encodeURIComponent [] = []" by (simp add: encodeURIComponent_def)
    then show ?thesis using True ih x pb
      by (simp add: encodeGitHubPath_def join_with_Cons2)
  next
    case False
    then have pb: "path_byte c = uri_byte c" by (simp add: path_byte_def)
    have "join_with ''/'' (encodeURIComponent (c # x) # map encodeURIComponent xs)
          = uri_byte c @ join_with ''/'' (encodeURIComponent x # map encodeURIComponent xs)"
      by (cases xs) (simp_all add: encodeURIComponent_def)
    then show ?thesis using False ih x pb
      by (simp add: encodeGitHubPath_def)
  qed
qed

lemma encodeGitHubPath_no_q: "CHR ''?'' \<notin> set (encodeGitHubPath p)"
  using uri_byte_no_q by (auto simp: encodeGitHubPath_bytes path_byte_def)

lemma contents_url_no_q: "CHR ''?'' \<notin> set (contents_url owner repo path)"
  using encodeURIComponent_no_q encodeGitHubPath_no_q
  by (auto simp: contents_url_def API_BASE_def)

lemma takeWhile_no_q: "CHR ''?'' \<notin> set u \<Longrightarrow> takeWhile (\<lambda>c. c \<noteq> CHR ''?'') (u @ CHR ''?'' # t) = u"
  by (induction u) auto

lemma takeWhile_no_q': "CHR ''?'' \<notin> set u \<Longrightarrow> takeWhile (\<lambda>c. c \<noteq> CHR ''?'') u = u"
  by (induction u) auto

lemma file_key_get:
  "file_key \<lparr>rq_method = m, rq_url = contents_url owner repo path @ ''?ref='' @ b, rq_headers = h, rq_body = bd\<rparr>
   = contents_url owner repo path"
  using takeWhile_no_q[OF contents_url_no_q, of owner repo path "''ref='' @ b"]
  by (simp add: file_key_def)

lemma file_key_put:
  "file_key \<lparr>rq_method = m, rq_url = contents_url owner repo path, rq_headers = h, rq_body = bd\<rparr>
   = contents_url owner repo path"
  using takeWhile_no_q'[OF contents_url_no_q, of owner repo path]
  by (simp add: file_key_def)

lemma path_byte_plain:
  "path_byte (CHR ''d'') = ''d''" "path_byte (CHR ''a'') = ''a''" "path_byte (CHR ''t'') = ''t''"
  "path_byte (CHR ''/'') = ''/''" "path_byte (CHR ''m'') = ''m''"
  by (simp_all add: path_byte_def uri_byte_def uri_unreserved_def)

lemma doc_manifest_paths:
  "encodeGitHubPath (dash_path ident) \<noteq> encodeGitHubPath MANIFEST_PATH"
  by (simp add: encodeGitHubPath_bytes dash_path_def DASH_DIR_def MANIFEST_PATH_def path_byte_plain)

lemma doc_manifest_urls:
  "contents_url owner repo (dash_path ident) \<noteq> contents_url owner repo MANIFEST_PATH"
  using doc_manifest_paths by (simp add: contents_url_def)

lemma github_calls: "calls (snd (github rq w)) = calls w"
  by (simp add: github_def Let_def split: option.splits json.splits prod.splits)

lemma github_faults: "faults (snd (github rq w)) = faults w"
  by (simp add: github_def Let_def split: option.splits json.splits prod.splits)

lemma github_clock: "clock (snd (github rq w)) = clock w" "ticks (snd (github rq w)) = ticks w"
  by (simp_all add: github_def Let_def split: option.splits json.splits prod.splits)

lemma github_engine:
  "message_text (snd (github rq w)) = message_text w" "stack_text (snd (github rq w)) = stack_text w"
  by (simp_all add: github_def Let_def split: option.splits json.splits prod.splits)

lemma fetch_engine:
  "message_text (snd (fetch rq w)) = message_text w" "stack_text (snd (fetch rq w)) = stack_text w"
  by (simp_all add: fetch_def Let_def github_engine split: list.splits option.splits fault.splits)

lemma fetch_calls: "calls (snd (fetch rq w)) = calls w @ [rq]"
  by (simp add: fetch_def Let_def github_calls split: list.splits option.splits fault.splits)

lemma fetch_faults: "faults (snd (fetch rq w)) = tl (faults w)"
  by (simp add: fetch_def Let_def github_faults split: list.splits option.splits fault.splits)

lemma ghGetFile_world: "snd (ghGetFile token owner repo path branch w) = snd (fetch (get_request token owner repo path branch) w)"
  by (cases "fetch (get_request token owner repo path branch) w")
     (simp add: ghGetFile_def Let_def io_bind_def io_return_def io_throw_def
           split: res.splits option.splits)

text \<open>
  Claim C8. \<^verbatim>\<open>ghGetFile\<close> makes one call. Whatever answers it with status 404 gives the
  result \<^verbatim>\<open>{exists: false}\<close>, which is not an error; an answer whose status is neither
  404 nor in the range 200 to 299 gives \<^verbatim>\<open>{error}\<close> with the stage \<^verbatim>\<open>github_get\<close>,
  the status, the status text, the URL and the body as received. The call is not
  repeated: the log of calls grows by exactly this one.
\<close>

theorem ghGetFile_missing_is_success_errors_are_wrapped:
  assumes "fst (fetch (get_request token owner repo path branch) w) = Return r"
  shows "(rs_status r = 404 \<longrightarrow>
            fst (ghGetFile token owner repo path branch w)
            = Return (GetMissing (rq_url (get_request token owner repo path branch))))
       \<and> (rs_status r \<noteq> 404 \<and> \<not> rs_ok r \<longrightarrow>
            fst (ghGetFile token owner repo path branch w)
            = Return (GetError \<lparr>stage = ''github_get'', status = rs_status r,
                               statusText = rs_statusText r,
                               url = rq_url (get_request token owner repo path branch),
                               raw = rs_raw r\<rparr>))
       \<and> calls (snd (ghGetFile token owner repo path branch w))
            = calls w @ [get_request token owner repo path branch]"
proof -
  obtain w' where f: "fetch (get_request token owner repo path branch) w = (Return r, w')"
    using assms by (cases "fetch (get_request token owner repo path branch) w") auto
  have "calls (snd (ghGetFile token owner repo path branch w))
            = calls w @ [get_request token owner repo path branch]"
    by (simp add: ghGetFile_world fetch_calls)
  then show ?thesis using f
    by (simp add: ghGetFile_def Let_def io_bind_def io_return_def wrap_error_def)
qed

theorem ghGetFile_missing_is_success_errors_are_wrapped_witness:
  "fst (ghGetFile ''tok'' ''me'' ''repo'' ''data/manifest.json'' ''main''
          (quiet_world [Some (Respond \<lparr>rs_status = 404, rs_statusText = ''Not Found'', rs_raw = ''{}''\<rparr>)]))
   = Return (GetMissing (rq_url (get_request ''tok'' ''me'' ''repo'' ''data/manifest.json'' ''main'')))
   \<and> fst (ghGetFile ''tok'' ''me'' ''repo'' ''data/manifest.json'' ''main''
          (quiet_world [Some (Respond \<lparr>rs_status = 503, rs_statusText = ''Unavailable'', rs_raw = ''busy''\<rparr>)]))
   = Return (GetError \<lparr>stage = ''github_get'', status = 503, statusText = ''Unavailable'',
                       url = rq_url (get_request ''tok'' ''me'' ''repo'' ''data/manifest.json'' ''main''),
                       raw = ''busy''\<rparr>)"
proof -
  let ?rq = "get_request ''tok'' ''me'' ''repo'' ''data/manifest.json'' ''main''"
  let ?r1 = "\<lparr>rs_status = 404, rs_statusText = ''Not Found'', rs_raw = ''{}''\<rparr>"
  let ?r2 = "\<lparr>rs_status = 503, rs_statusText = ''Unavailable'', rs_raw = ''busy''\<rparr>"
  have h1: "fst (fetch ?rq (quiet_world [Some (Respond ?r1)])) = Return ?r1"
    by (simp add: fetch_def quiet_world_def)
  have h2: "fst (fetch ?rq (quiet_world [Some (Respond ?r2)])) = Return ?r2"
    by (simp add: fetch_def quiet_world_def)
  show ?thesis
    using ghGetFile_missing_is_success_errors_are_wrapped[OF h1]
      ghGetFile_missing_is_success_errors_are_wrapped[OF h2]
    by (simp add: rs_ok_def)
qed

lemma called_simps [simp]:
  "files (called rq w) = files w" "commits (called rq w) = commits w"
  "calls (called rq w) = calls w @ [rq]" "faults (called rq w) = tl (faults w)"
  "clock (called rq w) = clock w" "ticks (called rq w) = ticks w"
  by (simp_all add: called_def)

lemma fetch_passes: "passes w \<Longrightarrow> fetch rq w = github rq (called rq w)"
proof (cases "faults w")
  case Nil
  assume "passes w"
  have "w\<lparr>calls := calls w @ [rq]\<rparr> = called rq w"
    using Nil by (cases w) (simp add: called_def)
  then have "github rq (w\<lparr>calls := calls w @ [rq]\<rparr>) = github rq (called rq w)" by simp
  then show ?thesis using Nil by (simp add: fetch_def Let_def)
next
  case (Cons f fs)
  assume "passes w"
  then have "f = None" using Cons by (simp add: passes_def)
  moreover have "w\<lparr>calls := calls w @ [rq], faults := fs\<rparr> = called rq w"
    using Cons by (cases w) (simp add: called_def)
  then have "github rq (w\<lparr>calls := calls w @ [rq], faults := fs\<rparr>) = github rq (called rq w)"
    by simp
  ultimately show ?thesis using Cons by (simp add: fetch_def Let_def)
qed

lemma wrap_lines_Nil: "wrap_lines 0 s = [] \<longleftrightarrow> s = []"
  by (cases s) auto

lemma parse_answer:
  "wf_json v \<Longrightarrow> JSON_parse (rs_raw (answer st txt v)) = Some v"
  by (simp add: answer_def JSON_parse_stringify)

lemma answer_sel [simp]:
  "rs_status (answer st txt v) = st" "rs_statusText (answer st txt v) = txt"
  by (simp_all add: answer_def)

lemma file_key_query:
  "CHR ''?'' \<notin> set u \<Longrightarrow>
   file_key \<lparr>rq_method = m, rq_url = u @ CHR ''?'' # t, rq_headers = h, rq_body = bd\<rparr> = u"
  by (simp add: file_key_def takeWhile_no_q)

lemma get_request_sel [simp]:
  "rq_method (get_request token owner repo path branch) = ''GET''"
  "file_key (get_request token owner repo path branch) = contents_url owner repo path"
  by (simp_all add: get_request_def file_key_query contents_url_no_q)

lemma ghGetFile_passes:
  assumes "passes w"
  shows "ghGetFile token owner repo path branch w =
     (Return (case files w (contents_url owner repo path) of
                None \<Rightarrow> GetMissing (rq_url (get_request token owner repo path branch))
              | Some bytes \<Rightarrow> GetExists (Some (JStr (blob_sha bytes))) (b64_encode bytes)
                                (rq_url (get_request token owner repo path branch))),
      called (get_request token owner repo path branch) w)"
proof (cases "files w (contents_url owner repo path)")
  case None
  then have "github (get_request token owner repo path branch) (called (get_request token owner repo path branch) w)
      = (Return (answer 404 ''Not Found'' (JObj [(''message'', JStr ''Not Found'')])),
         called (get_request token owner repo path branch) w)"
    by (simp add: github_def Let_def)
  then show ?thesis using None
    by (simp add: ghGetFile_def Let_def io_bind_def io_return_def fetch_passes[OF assms])
next
  case (Some bytes)
  let ?v = "JObj [(''sha'', JStr (blob_sha bytes)),
                  (''content'', JStr (wrap_lines 0 (b64_encode bytes))),
                  (''encoding'', JStr ''base64'')]"
  have g: "github (get_request token owner repo path branch) (called (get_request token owner repo path branch) w)
      = (Return (answer 200 ''OK'' ?v), called (get_request token owner repo path branch) w)"
    using Some by (simp add: github_def Let_def)
  have p: "JSON_parse (rs_raw (answer 200 ''OK'' ?v)) = Some ?v"
    by (rule parse_answer) simp
  have e: "wrap_lines 0 (b64_encode bytes) = [] \<Longrightarrow> b64_encode bytes = []"
    by (simp add: wrap_lines_Nil)
  show ?thesis using Some e
    by (auto simp: ghGetFile_def Let_def io_bind_def io_return_def fetch_passes[OF assms] g p
          rs_ok_def unwrap_b64)
qed

lemma handler_route:
  assumes "configured e" "req_method req \<noteq> ''OPTIONS''"
  shows "handler e req w =
         finish (route (env_value (GITHUB_TOKEN e)) (env_value (GITHUB_OWNER e))
                   (env_value (GITHUB_REPO e)) (branch_of e) req w)"
  using assms
  by (simp add: handler_def configured_def branch_of_def Let_def finish_def unhandled_def
        split: prod.splits res.splits)

lemma safeDashId_iff:
  "safeDashId d = (if dash_re (id_text d) then Some (id_text d) else None)"
  by (auto simp: safeDashId_def Let_def dash_re_def)

lemma id_char_alphabet: "id_char c \<longleftrightarrow> c \<in> set id_alphabet"
  by (cases c) (auto simp: id_char_def id_alphabet_def Let_def)

lemma dash_re_spec: "dash_re t = spec_id_format t"
  by (simp add: dash_re_def spec_id_format_def id_char_alphabet[abs_def])

text \<open>
  Claim C6. With the configuration in place, a \<^verbatim>\<open>GET\<close> (without \<^verbatim>\<open>list\<close>), a
  \<^verbatim>\<open>POST\<close> or a \<^verbatim>\<open>DELETE\<close> whose trimmed id is not 3 to 80 characters out of
  letters, digits, hyphen and underscore is answered with 400 and leaves the world as it
  was, so no call has been made; a trimmed id of that form passes \<^verbatim>\<open>safeDashId\<close>, which
  returns it. \<open>spec_id_format\<close> states the format in the words of the specification;
  \<open>dash_re_spec\<close> shows it is what the regular expression of line 81 accepts.
\<close>

theorem invalid_id_is_rejected_before_any_call:
  assumes "configured e"
    and "req_method req = ''POST'' \<or> req_method req = ''DELETE''
         \<or> (req_method req = ''GET'' \<and> falsy_var (query_list req))"
  shows "(\<not> spec_id_format (id_text (query_dash req)) \<longrightarrow>
            handler e req w = (invalid_id, w) \<and> code invalid_id = 400)
       \<and> (spec_id_format (id_text (query_dash req)) \<longrightarrow>
            safeDashId (query_dash req) = Some (id_text (query_dash req)))"
proof -
  have m: "req_method req \<noteq> ''OPTIONS''" using assms(2) by auto
  show ?thesis
    using assms(2)
    by (auto simp: handler_route[OF assms(1) m] route_def finish_def safeDashId_iff dash_re_spec
          get_branch_def post_branch_def delete_branch_def io_return_def invalid_id_def respond_def)
qed

lemma has_id_entry_id: "has_id ident x \<longleftrightarrow> entry_id x = Some ident"
  by (auto simp: has_id_def entry_id_def split: option.splits json.splits)

lemma findIndex_None: "findIndex p xs = None \<longleftrightarrow> (\<forall>x\<in>set xs. \<not> p x)"
  by (induction xs) (auto split: option.splits)

lemma findIndex_Some:
  "findIndex p xs = Some i \<Longrightarrow> i < length xs \<and> p (xs ! i)"
  by (induction xs arbitrary: i) (auto split: option.splits if_splits)

lemma map_of_obj_set: "map_of (obj_set kvs k v) k' = (if k' = k then Some v else map_of kvs k')"
  by (induction kvs) auto

lemma assign_entry:
  "Object_assign tgt [(''id'', a), (''name'', b), (''updatedAt'', c)]
   = obj_set (obj_set (obj_set tgt ''id'' a) ''name'' b) ''updatedAt'' c"
  by simp

lemma entry_id_merged:
  "entry_id (JObj (Object_assign tgt [(''id'', JStr ident), (''name'', name), (''updatedAt'', JStr now)]))
   = Some ident"
  by (simp add: entry_id_def map_of_obj_set)

lemma map_filter_update:
  "i < length xs \<Longrightarrow> f y = f (xs ! i) \<Longrightarrow> List.map_filter f (xs[i := y]) = List.map_filter f xs"
proof (induction xs arbitrary: i)
  case Nil
  then show ?case by simp
next
  case (Cons x xs)
  show ?case
  proof (cases i)
    case 0
    with Cons.prems show ?thesis by simp
  next
    case (Suc k)
    with Cons.prems have "List.map_filter f (xs[k := y]) = List.map_filter f xs"
      using Cons.IH[of k] by simp
    with Suc show ?thesis by (simp split: option.splits)
  qed
qed

lemma map_filter_append: "List.map_filter f (xs @ ys) = List.map_filter f xs @ List.map_filter f ys"
  by (simp add: List.map_filter_def)

lemma manifest_ids_upsert:
  "manifest_ids (upsert_entry list ident name now)
   = (if ident \<in> set (manifest_ids list) then manifest_ids list else manifest_ids list @ [ident])"
proof (cases "findIndex (has_id ident) list")
  case None
  then have "\<forall>x\<in>set list. entry_id x \<noteq> Some ident"
    by (simp add: findIndex_None has_id_entry_id)
  then have "ident \<notin> set (manifest_ids list)"
    by (auto simp: manifest_ids_def List.map_filter_def)
  moreover have "entry_id (JObj [(''id'', JStr ident), (''name'', name), (''updatedAt'', JStr now)]) = Some ident"
    by (simp add: entry_id_def)
  ultimately show ?thesis using None
    by (simp add: upsert_entry_def manifest_ids_def map_filter_append)
next
  case (Some idx)
  from findIndex_Some[OF Some] have i: "idx < length list" and e: "entry_id (list ! idx) = Some ident"
    by (simp_all add: has_id_entry_id)
  then have "ident \<in> set (manifest_ids list)"
    by (force simp: manifest_ids_def List.map_filter_def)
  moreover have "List.map_filter entry_id
      (list[idx := JObj (Object_assign (Object_assign [] (own_props (list ! idx)))
                           [(''id'', JStr ident), (''name'', name), (''updatedAt'', JStr now)])])
      = List.map_filter entry_id list"
    by (rule map_filter_update[OF i]) (simp only: entry_id_merged e)
  ultimately show ?thesis using Some
    by (simp add: upsert_entry_def manifest_ids_def)
qed

lemma manifest_ids_remove:
  "manifest_ids (remove_entry list ident) = filter (\<lambda>i. i \<noteq> ident) (manifest_ids list)"
proof (induction list)
  case Nil
  show ?case by (simp add: remove_entry_def manifest_ids_def)
next
  case (Cons x xs)
  have c: "\<And>z. (truthy z \<and> get_prop z ''id'' \<noteq> Some (JStr ident)) = (truthy z \<and> entry_id z \<noteq> Some ident)"
    by (auto simp: entry_id_def split: option.splits json.splits)
  have n: "\<And>i. entry_id x = Some i \<Longrightarrow> truthy x" by (simp add: entry_id_def split: if_splits)
  have ih: "List.map_filter entry_id (filter (\<lambda>x. truthy x \<and> entry_id x \<noteq> Some ident) xs)
            = filter (\<lambda>i. i \<noteq> ident) (List.map_filter entry_id xs)"
    using Cons by (simp add: remove_entry_def manifest_ids_def c)
  show ?case
  proof (cases "entry_id x")
    case None
    then show ?thesis using ih by (simp add: remove_entry_def manifest_ids_def c)
  next
    case (Some i)
    then show ?thesis using ih n[OF Some] by (simp add: remove_entry_def manifest_ids_def c)
  qed
qed

text \<open>
  Claim C9. If no two entries of the manifest have the same id, the same holds after the
  upsert of \<^verbatim>\<open>POST\<close> and after the filter of \<^verbatim>\<open>DELETE\<close>, and the filter leaves no
  entry with the id. When an entry with the id exists, the upsert replaces it where it
  stands: the list keeps its length, its sequence of ids, and every other entry at its
  index. When none exists, the new entry is appended.
\<close>

theorem upsert_and_filter_keep_one_entry_per_id:
  assumes "unique_by_id list"
  shows "unique_by_id (upsert_entry list ident name now)
       \<and> unique_by_id (remove_entry list ident)
       \<and> ident \<notin> set (manifest_ids (remove_entry list ident))
       \<and> (\<forall>idx. findIndex (has_id ident) list = Some idx \<longrightarrow>
             length (upsert_entry list ident name now) = length list
             \<and> manifest_ids (upsert_entry list ident name now) = manifest_ids list
             \<and> (\<forall>j. j < length list \<longrightarrow> j \<noteq> idx \<longrightarrow> upsert_entry list ident name now ! j = list ! j))
       \<and> (findIndex (has_id ident) list = None \<longrightarrow>
             upsert_entry list ident name now
             = list @ [JObj [(''id'', JStr ident), (''name'', name), (''updatedAt'', JStr now)]])"
proof -
  have a: "unique_by_id (upsert_entry list ident name now)"
    using assms by (simp add: unique_by_id_def manifest_ids_upsert)
  have b: "unique_by_id (remove_entry list ident)"
    using assms by (simp add: unique_by_id_def manifest_ids_remove)
  have c: "ident \<notin> set (manifest_ids (remove_entry list ident))"
    by (simp add: manifest_ids_remove)
  have d: "\<forall>idx. findIndex (has_id ident) list = Some idx \<longrightarrow>
             length (upsert_entry list ident name now) = length list
             \<and> manifest_ids (upsert_entry list ident name now) = manifest_ids list
             \<and> (\<forall>j. j < length list \<longrightarrow> j \<noteq> idx \<longrightarrow> upsert_entry list ident name now ! j = list ! j)"
  proof (intro allI impI)
    fix idx assume s: "findIndex (has_id ident) list = Some idx"
    from findIndex_Some[OF s] have "entry_id (list ! idx) = Some ident" "idx < length list"
      by (simp_all add: has_id_entry_id)
    then have "ident \<in> set (manifest_ids list)"
      by (force simp: manifest_ids_def List.map_filter_def)
    then have "manifest_ids (upsert_entry list ident name now) = manifest_ids list"
      by (simp add: manifest_ids_upsert)
    then show "length (upsert_entry list ident name now) = length list
             \<and> manifest_ids (upsert_entry list ident name now) = manifest_ids list
             \<and> (\<forall>j. j < length list \<longrightarrow> j \<noteq> idx \<longrightarrow> upsert_entry list ident name now ! j = list ! j)"
      using s by (simp add: upsert_entry_def)
  qed
  have e: "findIndex (has_id ident) list = None \<longrightarrow>
             upsert_entry list ident name now
             = list @ [JObj [(''id'', JStr ident), (''name'', name), (''updatedAt'', JStr now)]]"
    by (simp add: upsert_entry_def)
  from a b c d e show ?thesis by blast
qed

lemma example_env_configured: "configured example_env"
  by (simp add: configured_def example_env_def falsy_var_def env_value_def)

text \<open>
  The ids \<^verbatim>\<open>ab\<close> (two characters) and \<^verbatim>\<open>bad id\<close> (a space inside) are rejected with no
  call made; \<^verbatim>\<open>abc-DEF_9\<close> between spaces is accepted, trimmed.
\<close>

theorem invalid_id_is_rejected_before_any_call_witness:
  "handler example_env
     \<lparr>req_method = ''POST'', query_dash = Some ''ab'', query_list = None,
      req_body = Some (JObj [(''state'', JNum 1)])\<rparr> (quiet_world [])
   = (invalid_id, quiet_world [])
   \<and> handler example_env
     \<lparr>req_method = ''DELETE'', query_dash = Some ''bad id'', query_list = None,
      req_body = None\<rparr> (quiet_world [])
   = (invalid_id, quiet_world [])
   \<and> safeDashId (query_dash \<lparr>req_method = ''GET'', query_dash = Some '' abc-DEF_9 '',
                               query_list = None, req_body = None\<rparr>) = Some ''abc-DEF_9''"
proof -
  let ?r1 = "\<lparr>req_method = ''POST'', query_dash = Some ''ab'', query_list = None,
      req_body = Some (JObj [(''state'', JNum 1)])\<rparr>"
  let ?r2 = "\<lparr>req_method = ''DELETE'', query_dash = Some ''bad id'', query_list = None,
      req_body = None\<rparr>"
  let ?r3 = "\<lparr>req_method = ''GET'', query_dash = Some '' abc-DEF_9 '',
                               query_list = None, req_body = None\<rparr>"
  have a: "\<not> spec_id_format (id_text (Some ''ab''))" by code_simp
  have b: "\<not> spec_id_format (id_text (Some ''bad id''))" by code_simp
  have c: "spec_id_format (id_text (Some '' abc-DEF_9 ''))" by code_simp
  have d: "id_text (Some '' abc-DEF_9 '') = ''abc-DEF_9''" by code_simp
  show ?thesis
    using invalid_id_is_rejected_before_any_call[OF example_env_configured, of ?r1 "quiet_world []"]
      invalid_id_is_rejected_before_any_call[OF example_env_configured, of ?r2 "quiet_world []"]
      invalid_id_is_rejected_before_any_call[OF example_env_configured, of ?r3 "quiet_world []"]
      a b c d
    by (simp add: falsy_var_def)
qed

text \<open>A manifest of three entries; the second is replaced in place, or removed.\<close>

theorem upsert_and_filter_keep_one_entry_per_id_witness:
  "unique_by_id example_manifest
   \<and> unique_by_id (upsert_entry example_manifest ''beta'' (JStr ''New'') ''2024-06-01'')
   \<and> unique_by_id (remove_entry example_manifest ''beta'')
   \<and> length (upsert_entry example_manifest ''beta'' (JStr ''New'') ''2024-06-01'') = 3
   \<and> upsert_entry example_manifest ''beta'' (JStr ''New'') ''2024-06-01'' ! 0 = example_manifest ! 0
   \<and> upsert_entry example_manifest ''beta'' (JStr ''New'') ''2024-06-01'' ! 2 = example_manifest ! 2"
proof -
  have u: "unique_by_id example_manifest" by code_simp
  have f: "findIndex (has_id ''beta'') example_manifest = Some 1" by code_simp
  have l: "length example_manifest = 3" by (simp add: example_manifest_def)
  from upsert_and_filter_keep_one_entry_per_id[OF u, of "''beta''" "JStr ''New''" "''2024-06-01''"] f l u
  show ?thesis by simp
qed

lemma github_get_files: "rq_method rq = ''GET'' \<Longrightarrow> files (snd (github rq w)) = files w"
  by (simp add: github_def Let_def split: option.splits)

lemma fetch_get_files: "rq_method rq = ''GET'' \<Longrightarrow> files (snd (fetch rq w)) = files w"
  by (simp add: fetch_def Let_def github_get_files split: list.splits option.splits fault.splits)

lemma ghGetFile_files: "files (snd (ghGetFile token owner repo path branch w)) = files w"
  by (simp add: ghGetFile_world fetch_get_files)

lemma ghGetFile_engine:
  "message_text (snd (ghGetFile token owner repo path branch w)) = message_text w"
  "stack_text (snd (ghGetFile token owner repo path branch w)) = stack_text w"
  by (simp_all add: ghGetFile_world fetch_engine)

lemma unhandled_engine:
  "message_text w' = message_text w \<Longrightarrow> stack_text w' = stack_text w \<Longrightarrow>
   unhandled w' x = unhandled w x"
  by (cases x) (simp_all add: unhandled_def exn_details_def exn_message_def exn_stack_def)

lemma ghGetFile_calls:
  "calls (snd (ghGetFile token owner repo path branch w))
   = calls w @ [get_request token owner repo path branch]"
  by (simp add: ghGetFile_world fetch_calls)

lemma ghGetFile_404:
  assumes "fst (fetch (get_request token owner repo path branch) w) = Return r" "rs_status r = 404"
  shows "fst (ghGetFile token owner repo path branch w)
         = Return (GetMissing (rq_url (get_request token owner repo path branch)))"
proof -
  obtain w' where "fetch (get_request token owner repo path branch) w = (Return r, w')"
    using assms(1) by (cases "fetch (get_request token owner repo path branch) w") auto
  then show ?thesis using assms(2)
    by (simp add: ghGetFile_def Let_def io_bind_def io_return_def)
qed

lemma delete_branch_missing:
  assumes "safeDashId dash = Some ident"
    and "fst (ghGetFile token owner repo (dash_path ident) branch w) = Return (GetMissing u)"
  shows "delete_branch token owner repo branch dash w =
         (Return (respond 200 (JObj [(''ok'', JBool True), (''deleted'', JBool False)])),
          snd (ghGetFile token owner repo (dash_path ident) branch w))"
  using assms
  by (cases "ghGetFile token owner repo (dash_path ident) branch w")
     (simp add: delete_branch_def io_bind_def io_return_def)

text \<open>
  Claim C7. A \<^verbatim>\<open>DELETE\<close> for a valid id whose document read is answered with 404 gives
  the response 200 with \<^verbatim>\<open>{ok: true, deleted: false}\<close>. The read is the only call made:
  there is no \<^verbatim>\<open>DELETE\<close> call and no manifest call, and no file has changed.
\<close>

theorem delete_of_missing_document_is_a_successful_noop:
  assumes "configured e" "req_method req = ''DELETE''" "safeDashId (query_dash req) = Some ident"
    and "fst (fetch (doc_get_request e ident) w) = Return r" "rs_status r = 404"
  shows "fst (handler e req w) = respond 200 (JObj [(''ok'', JBool True), (''deleted'', JBool False)])
       \<and> code (fst (handler e req w)) = 200
       \<and> calls (snd (handler e req w)) = calls w @ [doc_get_request e ident]
       \<and> files (snd (handler e req w)) = files w"
proof -
  have m: "req_method req \<noteq> ''OPTIONS''" using assms(2) by simp
  have g: "fst (doc_read e ident w) = Return (GetMissing (rq_url (doc_get_request e ident)))"
    by (rule ghGetFile_404[OF assms(4,5)])
  have "handler e req w =
        (respond 200 (JObj [(''ok'', JBool True), (''deleted'', JBool False)]), snd (doc_read e ident w))"
    using assms(2) delete_branch_missing[OF assms(3) g]
    by (simp add: handler_route[OF assms(1) m] route_def finish_def)
  then show ?thesis
    by (simp add: ghGetFile_calls ghGetFile_files respond_def)
qed

text \<open>An empty repository answers the read of \<^verbatim>\<open>zzz\<close> with 404.\<close>

theorem delete_of_missing_document_is_a_successful_noop_witness:
  "fst (handler example_env
          \<lparr>req_method = ''DELETE'', query_dash = Some ''zzz'', query_list = None, req_body = None\<rparr>
          (quiet_world []))
   = respond 200 (JObj [(''ok'', JBool True), (''deleted'', JBool False)])
   \<and> calls (snd (handler example_env
          \<lparr>req_method = ''DELETE'', query_dash = Some ''zzz'', query_list = None, req_body = None\<rparr>
          (quiet_world [])))
     = [doc_get_request example_env ''zzz'']"
proof -
  let ?rq = "\<lparr>req_method = ''DELETE'', query_dash = Some ''zzz'', query_list = None, req_body = None\<rparr>"
  have s: "safeDashId (query_dash ?rq) = Some ''zzz''" by code_simp
  have f: "fst (fetch (doc_get_request example_env ''zzz'') (quiet_world []))
           = Return (answer 404 ''Not Found'' (JObj [(''message'', JStr ''Not Found'')]))"
    by (simp add: fetch_passes passes_def quiet_world_def github_def Let_def)
  have c: "calls (quiet_world []) = []" by (simp add: quiet_world_def)
  show ?thesis
    using delete_of_missing_document_is_a_successful_noop[OF example_env_configured _ s f] c
    by simp
qed

lemma finish_Return: "m = (Return r, w') \<Longrightarrow> finish m = (r, w')"
  by (simp add: finish_def)

lemma finish_Throw: "m = (Throw x, w') \<Longrightarrow> finish m = (unhandled w' x, w')"
  by (simp add: finish_def)

lemma unhandled_code [simp]: "code (unhandled w x) = 500"
  by (simp add: unhandled_def respond_def)

lemma failed_code [simp]: "code (failed msg err) = 502"
  by (simp add: failed_def respond_def)

lemma respond_sel [simp]: "code (respond c v) = c" "payload (respond c v) = Some v"
  by (simp_all add: respond_def)

lemma get_branch_exists:
  assumes "safeDashId dash = Some ident"
    and "fst (ghGetFile token owner repo (dash_path ident) branch w) = Return (GetExists sha b64 u)"
  shows "get_branch token owner repo branch dash w =
         ((case JSON_parse (fromBase64 b64) of
             None \<Rightarrow> Throw SyntaxError
           | Some state \<Rightarrow> Return (respond 200 (JObj [(''state'', state), (''exists'', JBool True)]))),
          snd (ghGetFile token owner repo (dash_path ident) branch w))"
  using assms
  by (cases "ghGetFile token owner repo (dash_path ident) branch w")
     (simp add: get_branch_def io_bind_def io_return_def io_throw_def split: option.splits)

lemma handler_get:
  assumes "configured e" "req_method req = ''GET''" "falsy_var (query_list req)"
  shows "handler e req w =
         finish (get_branch (token_of e) (owner_of e) (repo_of e) (branch_of e) (query_dash req) w)"
proof -
  have m: "req_method req \<noteq> ''OPTIONS''" using assms(2) by simp
  show ?thesis using assms(2,3) by (simp add: handler_route[OF assms(1) m] route_def)
qed

lemma get_of_stored_document:
  assumes "configured e" "req_method req = ''GET''" "falsy_var (query_list req)"
    and "safeDashId (query_dash req) = Some ident"
    and "passes w" "files w (doc_url e ident) = Some bytes"
  shows "fst (handler e req w) =
         (case JSON_parse bytes of
            None \<Rightarrow> unhandled w SyntaxError
          | Some state \<Rightarrow> respond 200 (JObj [(''state'', state), (''exists'', JBool True)]))"
proof -
  have g: "fst (doc_read e ident w)
           = Return (GetExists (Some (JStr (blob_sha bytes))) (b64_encode bytes)
                       (rq_url (doc_get_request e ident)))"
    using assms(6) by (simp add: ghGetFile_passes[OF assms(5)])
  have u: "unhandled (snd (doc_read e ident w)) SyntaxError = unhandled w SyntaxError"
    by (rule unhandled_engine) (simp_all add: ghGetFile_engine)
  show ?thesis
    by (simp add: handler_get[OF assms(1,2,3)] get_branch_exists[OF assms(4) g] fromBase64_def
          b64_roundtrip finish_def u split: option.splits)
qed

text \<open>
  Claim C10. When the file of a dashboard exists and its content is not JSON (\<^verbatim>\<open>JSON.parse\<close>
  throws on it), \<^verbatim>\<open>GET\<close> does not answer 200 with an empty state, as the manifest loader
  would, and not 502: the SyntaxError reaches the \<^verbatim>\<open>catch\<close> of the handler, and the
  answer is 500 with the error \<^verbatim>\<open>Unhandled\<close>, the message and the stack trace the engine
  gives the SyntaxError.
\<close>

theorem get_of_unparsable_document_is_unhandled:
  assumes "configured e" "req_method req = ''GET''" "falsy_var (query_list req)"
    and "safeDashId (query_dash req) = Some ident"
    and "passes w" "files w (doc_url e ident) = Some bytes"
    and "JSON_parse bytes = None"
  shows "fst (handler e req w)
         = respond 500 (JObj [(''error'', JStr ''Unhandled''),
                              (''details'', JStr (exn_details w SyntaxError)),
                              (''stack'', JStr (exn_stack w SyntaxError))])
       \<and> code (fst (handler e req w)) = 500"
  using get_of_stored_document[OF assms(1-6)] assms(7)
  by (simp add: unhandled_def)

text \<open>The file of \<^verbatim>\<open>abc\<close> holds \<^verbatim>\<open>{oops\<close>.\<close>

theorem get_of_unparsable_document_is_unhandled_witness:
  "code (fst (handler example_env
                \<lparr>req_method = ''GET'', query_dash = Some ''abc'', query_list = None, req_body = None\<rparr>
                (stored_world [doc_url example_env ''abc'' \<mapsto> ''{oops''] []))) = 500"
proof -
  let ?rq = "\<lparr>req_method = ''GET'', query_dash = Some ''abc'', query_list = None, req_body = None\<rparr>"
  let ?w = "stored_world [doc_url example_env ''abc'' \<mapsto> ''{oops''] []"
  have s: "safeDashId (query_dash ?rq) = Some ''abc''" by code_simp
  have p: "passes ?w" by (simp add: passes_def stored_world_def)
  have f: "files ?w (doc_url example_env ''abc'') = Some ''{oops''" by (simp add: stored_world_def)
  have j: "JSON_parse ''{oops'' = None" by code_simp
  show ?thesis
    using get_of_unparsable_document_is_unhandled[OF example_env_configured _ _ s p f j]
    by (simp add: falsy_var_def)
qed

text \<open>A document with a fraction in it is JSON: the file \<^verbatim>\<open>{"zoom": 1.5}\<close> is served.\<close>

lemma get_of_document_with_fraction:
  "fst (handler example_env
          \<lparr>req_method = ''GET'', query_dash = Some ''abc'', query_list = None, req_body = None\<rparr>
          (stored_world [doc_url example_env ''abc'' \<mapsto> [CHR ''{'', CHR 0x22, CHR ''z'', CHR ''o'', CHR ''o'',
             CHR ''m'', CHR 0x22, CHR '':'', CHR '' '', CHR ''1'', CHR ''.'', CHR ''5'', CHR ''}'']] []))
   = respond 200 (JObj [(''state'', JObj [(''zoom'', JDec 15 1)]), (''exists'', JBool True)])"
  by code_simp

end
